theory Spec2Isabelle
  imports Complex_Main "HOL-Library.Word"
begin

section \<open>treeagent: rollouts to training samples (samples.go)\<close>

text \<open>
  A shallow embedding of \<^verbatim>\<open>samples.go\<close>. A channel is the list of the values sent on
  it, in the order of the sends; a goroutine that writes a channel is a function that
  returns this list together with the way it ended: \<open>None\<close> when the goroutine returned
  (and closed the channel), \<open>Some e\<close> when it panicked with \<open>e\<close>. A panic in a goroutine
  ends the whole Go program, so nothing is sent after it.

  Go's \<^verbatim>\<open>int\<close> is modelled without a width: lengths, loop counters and slice bounds are
  \<open>nat\<close>, the arguments a caller chooses freely (\<^verbatim>\<open>idx\<close>, \<^verbatim>\<open>numFeatures\<close>) and the stored
  action are \<open>int\<close>. A \<^verbatim>\<open>float64\<close> is modelled by the real number it denotes; NaN and the
  infinities are outside the model. The only arithmetic the file does on floats is the
  conversion to and from \<^verbatim>\<open>uint8\<close>.
\<close>

subsection \<open>Errors, samples\<close>

type_synonym float64 = real
type_synonym uint8 = "8 word"

datatype error =
    DivideByZero
  | NilDereference
  | IndexOutOfRange
  | SliceOutOfRange
  | MakeSliceLenOutOfRange

text \<open>\<^verbatim>\<open>xs[i]\<close> on a Go slice: a run-time panic outside \<open>0 \<le> i < len(xs)\<close>.\<close>

definition index :: "'a list \<Rightarrow> int \<Rightarrow> error + 'a" where
  "index xs i = (if 0 \<le> i \<and> i < int (length xs) then Inr (xs ! nat i) else Inl IndexOutOfRange)"

text \<open>\<^verbatim>\<open>xs[lo:hi]\<close> on a Go slice (and \<^verbatim>\<open>Slice(lo, hi)\<close> on a vector): a panic unless
  \<open>lo \<le> hi \<le> len(xs)\<close>.\<close>

definition slice :: "'a list \<Rightarrow> nat \<Rightarrow> nat \<Rightarrow> error + 'a list" where
  "slice xs lo hi =
     (if lo \<le> hi \<and> hi \<le> length xs then Inr (take (hi - lo) (drop lo xs)) else Inl SliceOutOfRange)"

text \<open>The two implementations of the interface \<^verbatim>\<open>Sample\<close>.\<close>

datatype Sample =
    memorySample (m_features: "float64 list") (m_action: int) (m_advantage: float64)
  | uint8Sample (u_features: "uint8 list") (u_action: int) (u_advantage: float64)

fun Feature :: "Sample \<Rightarrow> int \<Rightarrow> error + float64" where
  "Feature (memorySample fs a adv) idx = index fs idx"
| "Feature (uint8Sample fs a adv) idx =
     (case index fs idx of Inl e \<Rightarrow> Inl e | Inr w \<Rightarrow> Inr (real (unat w)))"

fun Action :: "Sample \<Rightarrow> int" where
  "Action (memorySample fs a adv) = a"
| "Action (uint8Sample fs a adv) = a"

fun Advantage :: "Sample \<Rightarrow> float64" where
  "Advantage (memorySample fs a adv) = adv"
| "Advantage (uint8Sample fs a adv) = adv"

subsection \<open>Rollout batches\<close>

text \<open>
  Modelled from the spec: the type \<^verbatim>\<open>anyseq.Batch\<close>, which samples.go imports. A batch
  holds the packed values of the present lanes, lane after lane, and one presence flag
  per lane.
\<close>

record Batch =
  Packed :: "float64 list"
  Present :: "bool list"

text \<open>
  Modelled from the spec: the method \<^verbatim>\<open>NumPresent\<close> of \<^verbatim>\<open>anyseq.Batch\<close>, the number of
  present lanes of the batch.
\<close>

definition NumPresent :: "Batch \<Rightarrow> nat" where
  "NumPresent b = length (filter (\<lambda>p. p) (Present b))"

text \<open>
  Modelled from the spec: \<^verbatim>\<open>vecToFloats\<close>, the numeric unpacking helper, which is not in
  the source files at hand. It returns the packed floating-point values of a vector.
\<close>

definition vecToFloats :: "float64 list \<Rightarrow> float64 list" where
  "vecToFloats v = v"

text \<open>
  Modelled from the spec: the lowest index at which a value stands in a vector, used by
  \<open>MaxIndex\<close> below.
\<close>

fun index_of :: "'a \<Rightarrow> 'a list \<Rightarrow> nat" where
  "index_of y [] = 0"
| "index_of y (x # xs) = (if x = y then 0 else Suc (index_of y xs))"

text \<open>
  Modelled from the spec: \<^verbatim>\<open>anyvec.MaxIndex\<close>, which samples.go imports: the index of the
  maximum value of the vector, ties broken by lowest index. The spec says nothing about
  the empty vector; the model returns 0 there.
\<close>

definition MaxIndex :: "float64 list \<Rightarrow> nat" where
  "MaxIndex v = (case v of [] \<Rightarrow> 0 | x # xs \<Rightarrow> index_of (fold max xs x) v)"

text \<open>A rollout set: the batches that \<^verbatim>\<open>ReadTape(0, -1)\<close> delivers for the inputs and for
  the actions. \<^verbatim>\<open>anyrl.Rewards\<close> is \<^verbatim>\<open>[][]float64\<close>.\<close>

record RolloutSet =
  Inputs :: "Batch list"
  Actions :: "Batch list"

type_synonym Rewards = "float64 list list"

text \<open>\<^verbatim>\<open>advantages[lane][timestep]\<close>.\<close>

definition advantage_at :: "Rewards \<Rightarrow> nat \<Rightarrow> nat \<Rightarrow> error + float64" where
  "advantage_at advantages lane timestep =
     (case index advantages (int lane) of
        Inl e \<Rightarrow> Inl e
      | Inr row \<Rightarrow> index row (int timestep))"

subsection \<open>RolloutSamples\<close>

text \<open>Lines 49 to 56: the sample for the \<open>i\<close>-th present lane \<open>lane\<close> of one timestep.\<close>

definition make_sample ::
  "float64 list \<Rightarrow> float64 list \<Rightarrow> nat \<Rightarrow> nat \<Rightarrow> Rewards \<Rightarrow> nat \<Rightarrow> nat \<Rightarrow> nat \<Rightarrow> error + Sample" where
  "make_sample inValues outPacked numFeatures numActions advantages timestep lane i =
     (case slice inValues (i * numFeatures) ((i + 1) * numFeatures) of
        Inl e \<Rightarrow> Inl e
      | Inr subIns \<Rightarrow>
          (case slice outPacked (i * numActions) ((i + 1) * numActions) of
             Inl e \<Rightarrow> Inl e
           | Inr subOuts \<Rightarrow>
               (let action = MaxIndex subOuts
                in case advantage_at advantages lane timestep of
                     Inl e \<Rightarrow> Inl e
                   | Inr a \<Rightarrow> Inr (memorySample subIns (int action) a))))"

text \<open>Lines 44 to 58: the loop over \<^verbatim>\<open>input.Present\<close>. \<open>res\<close> is the channel.\<close>

fun lanes_loop ::
  "(nat \<Rightarrow> nat \<Rightarrow> error + Sample) \<Rightarrow> bool list \<Rightarrow> nat \<Rightarrow> nat \<Rightarrow> Sample list
     \<Rightarrow> Sample list \<times> error option" where
  "lanes_loop mk [] lane i res = (res, None)"
| "lanes_loop mk (pres # rest) lane i res =
     (if \<not> pres then lanes_loop mk rest (Suc lane) i res
      else (case mk lane i of
              Inl e \<Rightarrow> (res, Some e)
            | Inr s \<Rightarrow> lanes_loop mk rest (Suc lane) (Suc i) (res @ [s])))"

text \<open>Receiving from a channel: the zero value (a nil pointer) once it is closed and empty.\<close>

fun recv :: "'a list \<Rightarrow> 'a option \<times> 'a list" where
  "recv [] = (None, [])"
| "recv (x # xs) = (Some x, xs)"

text \<open>Lines 36 to 60: the loop over the input batches.\<close>

fun rollout_loop ::
  "Rewards \<Rightarrow> Batch list \<Rightarrow> Batch list \<Rightarrow> nat \<Rightarrow> Sample list \<Rightarrow> Sample list \<times> error option" where
  "rollout_loop advantages [] outChan timestep res = (res, None)"
| "rollout_loop advantages (input # inChan) outChan timestep res =
     (case recv outChan of (output, outChan') \<Rightarrow>
        (let inValues = vecToFloats (Packed input);
             batch = NumPresent input
         in if batch = 0 then (res, Some DivideByZero)
            else (let numFeatures = length inValues div batch
                  in case output of
                       None \<Rightarrow> (res, Some NilDereference)
                     | Some out \<Rightarrow>
                         (let numActions = length (Packed out) div batch
                          in case lanes_loop
                                    (make_sample inValues (Packed out) numFeatures numActions
                                       advantages timestep)
                                    (Present input) 0 0 res of
                               (res', Some e) \<Rightarrow> (res', Some e)
                             | (res', None) \<Rightarrow>
                                 rollout_loop advantages inChan outChan' (Suc timestep) res'))))"

definition RolloutSamples :: "RolloutSet \<Rightarrow> Rewards \<Rightarrow> Sample list \<times> error option" where
  "RolloutSamples r advantages = rollout_loop advantages (Inputs r) (Actions r) 0 []"

subsection \<open>The same loops, recording where each sample comes from\<close>

text \<open>
  The loops once more, unchanged except that every send also records the values that the
  loop variables \<^verbatim>\<open>lane\<close> and \<^verbatim>\<open>timestep\<close> have at the send (line 52). The record is
  not a Go value: it names the (lane, timestep) pair a sample is derived from.
\<close>

type_synonym origin = "nat \<times> nat"

fun lanes_trace ::
  "(nat \<Rightarrow> nat \<Rightarrow> error + Sample) \<Rightarrow> nat \<Rightarrow> bool list \<Rightarrow> nat \<Rightarrow> nat \<Rightarrow> (origin \<times> Sample) list
     \<Rightarrow> (origin \<times> Sample) list \<times> error option" where
  "lanes_trace mk timestep [] lane i res = (res, None)"
| "lanes_trace mk timestep (pres # rest) lane i res =
     (if \<not> pres then lanes_trace mk timestep rest (Suc lane) i res
      else (case mk lane i of
              Inl e \<Rightarrow> (res, Some e)
            | Inr s \<Rightarrow> lanes_trace mk timestep rest (Suc lane) (Suc i) (res @ [((lane, timestep), s)])))"

fun rollout_trace ::
  "Rewards \<Rightarrow> Batch list \<Rightarrow> Batch list \<Rightarrow> nat \<Rightarrow> (origin \<times> Sample) list
     \<Rightarrow> (origin \<times> Sample) list \<times> error option" where
  "rollout_trace advantages [] outChan timestep res = (res, None)"
| "rollout_trace advantages (input # inChan) outChan timestep res =
     (case recv outChan of (output, outChan') \<Rightarrow>
        (let inValues = vecToFloats (Packed input);
             batch = NumPresent input
         in if batch = 0 then (res, Some DivideByZero)
            else (let numFeatures = length inValues div batch
                  in case output of
                       None \<Rightarrow> (res, Some NilDereference)
                     | Some out \<Rightarrow>
                         (let numActions = length (Packed out) div batch
                          in case lanes_trace
                                    (make_sample inValues (Packed out) numFeatures numActions
                                       advantages timestep)
                                    timestep (Present input) 0 0 res of
                               (res', Some e) \<Rightarrow> (res', Some e)
                             | (res', None) \<Rightarrow>
                                 rollout_trace advantages inChan outChan' (Suc timestep) res'))))"

definition RolloutTrace :: "RolloutSet \<Rightarrow> Rewards \<Rightarrow> (origin \<times> Sample) list \<times> error option" where
  "RolloutTrace r advantages = rollout_trace advantages (Inputs r) (Actions r) 0 []"

definition origins :: "RolloutSet \<Rightarrow> Rewards \<Rightarrow> origin list" where
  "origins r advantages = map fst (fst (RolloutTrace r advantages))"

subsection \<open>The enumeration of the present (lane, timestep) pairs\<close>

text \<open>The present lanes of one presence mask, ascending; then the pairs of all timesteps,
  timestep by timestep.\<close>

definition present_lanes :: "bool list \<Rightarrow> nat list" where
  "present_lanes ps = map fst (filter snd (enumerate 0 ps))"

definition present_pairs :: "Batch list \<Rightarrow> origin list" where
  "present_pairs ins =
     concat (map (\<lambda>(t, b). map (\<lambda>l. (l, t)) (present_lanes (Present b))) (enumerate 0 ins))"

text \<open>Timestep-major, lane-minor: the order on (lane, timestep) pairs.\<close>

definition before :: "origin \<Rightarrow> origin \<Rightarrow> bool" where
  "before p q = (snd p < snd q \<or> (snd p = snd q \<and> fst p < fst q))"

text \<open>The part of a packed vector that belongs to lane \<open>l\<close>: the packed vector is cut into
  as many equal parts as lanes are present, and the part of lane \<open>l\<close> is the one at the
  number of present lanes below \<open>l\<close>.\<close>

definition lane_part :: "float64 list \<Rightarrow> bool list \<Rightarrow> nat \<Rightarrow> float64 list" where
  "lane_part packed ps l =
     (let width = length packed div length (filter (\<lambda>p. p) ps);
          rank = length (filter (\<lambda>p. p) (take l ps))
      in take width (drop (rank * width) packed))"

subsection \<open>Auxiliary notions for the proofs\<close>

text \<open>The present lanes of a presence mask whose first flag belongs to lane \<open>lane\<close>, and the
  present pairs of a list of batches whose first batch belongs to timestep \<open>t\<close>.\<close>

definition lanes_from :: "nat \<Rightarrow> bool list \<Rightarrow> nat list" where
  "lanes_from lane ps = map fst (filter snd (enumerate lane ps))"

definition pairs_from :: "nat \<Rightarrow> Batch list \<Rightarrow> origin list" where
  "pairs_from t ins =
     concat (map (\<lambda>(t, b). map (\<lambda>l. (l, t)) (present_lanes (Present b))) (enumerate t ins))"

text \<open>One timestep of the recording loop, started on the empty channel.\<close>

definition step_trace :: "Rewards \<Rightarrow> Batch \<Rightarrow> Batch \<Rightarrow> nat \<Rightarrow> (origin \<times> Sample) list \<times> error option" where
  "step_trace adv input out t =
     lanes_trace
       (make_sample (vecToFloats (Packed input)) (Packed out)
          (length (vecToFloats (Packed input)) div NumPresent input)
          (length (Packed out) div NumPresent input) adv t)
       t (Present input) 0 0 []"

subsection \<open>Uint8Samples\<close>

text \<open>
  \<^verbatim>\<open>uint8(x)\<close> for a \<^verbatim>\<open>float64\<close> \<open>x\<close>: Go discards the fraction (truncation towards
  zero) when the result fits \<^verbatim>\<open>uint8\<close>; otherwise the language leaves the result to the
  implementation, which is the parameter \<open>impl\<close> here.
\<close>

definition trunc :: "float64 \<Rightarrow> int" where
  "trunc x = (if 0 \<le> x then \<lfloor>x\<rfloor> else \<lceil>x\<rceil>)"

definition uint8_of_float :: "(float64 \<Rightarrow> uint8) \<Rightarrow> float64 \<Rightarrow> uint8" where
  "uint8_of_float impl x =
     (if 0 \<le> trunc x \<and> trunc x \<le> 255 then word_of_int (trunc x) else impl x)"

text \<open>Lines 88 to 90: the loop that fills \<^verbatim>\<open>sample.features\<close>.\<close>

function fill_features ::
  "(float64 \<Rightarrow> uint8) \<Rightarrow> Sample \<Rightarrow> int \<Rightarrow> int \<Rightarrow> uint8 list \<Rightarrow> error + uint8 list" where
  "fill_features impl inp numFeatures i features =
     (if i < numFeatures
      then (case Feature inp i of
              Inl e \<Rightarrow> Inl e
            | Inr x \<Rightarrow>
                fill_features impl inp numFeatures (i + 1)
                  (features[nat i := uint8_of_float impl x]))
      else Inr features)"
  by pat_completeness auto
termination
  by (relation "measure (\<lambda>(impl, inp, numFeatures, i, features). nat (numFeatures - i))") auto

declare fill_features.simps [simp del]

text \<open>Lines 82 to 92: the loop over the incoming channel. \<^verbatim>\<open>make\<close> panics on a negative
  length.\<close>

fun uint8_loop ::
  "(float64 \<Rightarrow> uint8) \<Rightarrow> int \<Rightarrow> Sample list \<Rightarrow> Sample list \<Rightarrow> Sample list \<times> error option" where
  "uint8_loop impl numFeatures [] res = (res, None)"
| "uint8_loop impl numFeatures (inp # incoming) res =
     (if numFeatures < 0 then (res, Some MakeSliceLenOutOfRange)
      else (case fill_features impl inp numFeatures 0 (replicate (nat numFeatures) 0) of
              Inl e \<Rightarrow> (res, Some e)
            | Inr features \<Rightarrow>
                uint8_loop impl numFeatures incoming
                  (res @ [uint8Sample features (Action inp) (Advantage inp)])))"

definition Uint8Samples ::
  "(float64 \<Rightarrow> uint8) \<Rightarrow> int \<Rightarrow> Sample list \<Rightarrow> Sample list \<times> error option" where
  "Uint8Samples impl numFeatures incoming = uint8_loop impl numFeatures incoming []"

subsection \<open>AllSamples\<close>

text \<open>Lines 99 to 105: \<^verbatim>\<open>res\<close> starts as the nil slice and every sample is appended.\<close>

fun all_loop :: "Sample list \<Rightarrow> Sample list \<Rightarrow> Sample list" where
  "all_loop [] res = res"
| "all_loop (s # ch) res = all_loop ch (res @ [s])"

definition AllSamples :: "Sample list \<Rightarrow> Sample list" where
  "AllSamples ch = all_loop ch []"

subsection \<open>The example of the specification\<close>

definition ex_rollouts :: RolloutSet where
  "ex_rollouts =
     \<lparr>Inputs = [\<lparr>Packed = [10, 11, 12, 20, 21, 22], Present = [True, True]\<rparr>,
                \<lparr>Packed = [13, 14, 15], Present = [True, False]\<rparr>],
      Actions = [\<lparr>Packed = [1, 3, 2, 5, 5, 4], Present = [True, True]\<rparr>,
                 \<lparr>Packed = [7, 7, 7], Present = [True, False]\<rparr>]\<rparr>"

definition ex_advantages :: Rewards where
  "ex_advantages = [[1, 1 / 2], [- 1 / 5]]"

definition ex_samples :: "Sample list" where
  "ex_samples =
     [memorySample [10, 11, 12] 1 1,
      memorySample [20, 21, 22] 0 (- 1 / 5),
      memorySample [13, 14, 15] 0 (1 / 2)]"

text \<open>The samples of the example with their features stored as bytes.\<close>

definition ex_uint8_samples :: "Sample list" where
  "ex_uint8_samples =
     [uint8Sample [10, 11, 12] 1 1,
      uint8Sample [20, 21, 22] 0 (- 1 / 5),
      uint8Sample [13, 14, 15] 0 (1 / 2)]"

text \<open>The example with its second action batch missing, and with a second input batch
  whose lanes are all absent.\<close>

definition ex_short :: RolloutSet where
  "ex_short = ex_rollouts\<lparr>Actions := take 1 (Actions ex_rollouts)\<rparr>"

definition ex_absent :: RolloutSet where
  "ex_absent =
     ex_rollouts\<lparr>Inputs := [Inputs ex_rollouts ! 0, \<lparr>Packed = [], Present = [False, False]\<rparr>]\<rparr>"

text \<open>A single lane that is present, absent and present again, with an action batch for
  every input batch and an advantage for every timestep.\<close>

definition ex_reappear :: RolloutSet where
  "ex_reappear =
     \<lparr>Inputs = [\<lparr>Packed = [1], Present = [True]\<rparr>,
                \<lparr>Packed = [], Present = [False]\<rparr>,
                \<lparr>Packed = [2], Present = [True]\<rparr>],
      Actions = [\<lparr>Packed = [1], Present = [True]\<rparr>,
                 \<lparr>Packed = [], Present = [False]\<rparr>,
                 \<lparr>Packed = [1], Present = [True]\<rparr>]\<rparr>"

definition ex_reappear_advantages :: Rewards where
  "ex_reappear_advantages = [[1, 0, 1]]"

text \<open>A sample whose features have fractions, and a sample whose feature is a whole number
  far above 255.\<close>

definition ex_fractions :: "Sample list" where
  "ex_fractions = [memorySample [37 / 10, - 1 / 2, 2559 / 10] 2 0]"

definition ex_beyond :: "Sample list" where
  "ex_beyond = [memorySample [2147483649] 0 0]"

text \<open>
  Two conversions that Go admits for a value that does not fit \<^verbatim>\<open>uint8\<close>, as examples of
  the parameter \<open>impl\<close>. The first converts to a 32-bit signed integer, taking the
  smallest such integer when the truncated value does not fit, and keeps the low byte.
  The second saturates: 0 below the range, 255 above it.
\<close>

definition cvt_indefinite :: "float64 \<Rightarrow> uint8" where
  "cvt_indefinite x =
     word_of_int (if - (2 ^ 31) \<le> trunc x \<and> trunc x < 2 ^ 31 then trunc x else - (2 ^ 31))"

definition cvt_saturating :: "float64 \<Rightarrow> uint8" where
  "cvt_saturating x = (if x < 0 then 0 else 255)"

section \<open>The loops and their recording copies\<close>

lemma lanes_trace_acc:
  "lanes_trace mk t ps lane i res =
     (res @ fst (lanes_trace mk t ps lane i []), snd (lanes_trace mk t ps lane i []))"
proof (induction ps arbitrary: lane i res)
  case Nil
  show ?case by simp
next
  case (Cons p ps)
  show ?case
  proof (cases p)
    case False
    then show ?thesis using Cons.IH [of "Suc lane" i res] by simp
  next
    case True
    show ?thesis
    proof (cases "mk lane i")
      case (Inl e)
      with True show ?thesis by simp
    next
      case (Inr s)
      with True show ?thesis
        using Cons.IH [of "Suc lane" "Suc i" "res @ [((lane, t), s)]"]
              Cons.IH [of "Suc lane" "Suc i" "[((lane, t), s)]"]
        by simp
    qed
  qed
qed

lemma lanes_loop_trace:
  "lanes_loop mk ps lane i (map snd res) =
     (map snd (fst (lanes_trace mk t ps lane i res)), snd (lanes_trace mk t ps lane i res))"
proof (induction ps arbitrary: lane i res)
  case Nil
  show ?case by simp
next
  case (Cons p ps)
  show ?case
  proof (cases p)
    case False
    then show ?thesis using Cons.IH [of "Suc lane" i res] by simp
  next
    case True
    show ?thesis
    proof (cases "mk lane i")
      case (Inl e)
      with True show ?thesis by simp
    next
      case (Inr s)
      with True show ?thesis
        using Cons.IH [of "Suc lane" "Suc i" "res @ [((lane, t), s)]"] by simp
    qed
  qed
qed

lemma rollout_loop_trace:
  "rollout_loop adv ins outs t (map snd res) =
     (map snd (fst (rollout_trace adv ins outs t res)), snd (rollout_trace adv ins outs t res))"
proof (induction ins arbitrary: outs t res)
  case Nil
  show ?case by simp
next
  case (Cons b ins)
  show ?case
  proof (cases outs)
    case Nil
    then show ?thesis by (simp add: Let_def)
  next
    case (Cons out outs')
    show ?thesis
      unfolding Cons
      by (simp add: Let_def lanes_loop_trace [where t = t] Cons.IH
            split: prod.splits option.splits)
  qed
qed

lemma lanes_trace_True_Inr:
  "mk lane i = Inr s \<Longrightarrow>
   lanes_trace mk t (True # ps) lane i [] =
     (((lane, t), s) # fst (lanes_trace mk t ps (Suc lane) (Suc i) []),
      snd (lanes_trace mk t ps (Suc lane) (Suc i) []))"
  using lanes_trace_acc [of mk t ps "Suc lane" "Suc i" "[((lane, t), s)]"] by simp

lemma lanes_from_simps:
  "lanes_from lane [] = []"
  "lanes_from lane (False # ps) = lanes_from (Suc lane) ps"
  "lanes_from lane (True # ps) = lane # lanes_from (Suc lane) ps"
  by (simp_all add: lanes_from_def)

lemma lanes_trace_origins:
  "\<exists>k. map fst (fst (lanes_trace mk t ps lane i [])) = map (\<lambda>l. (l, t)) (take k (lanes_from lane ps))
     \<and> (snd (lanes_trace mk t ps lane i []) = None \<longrightarrow> k = length (lanes_from lane ps))"
proof (induction ps arbitrary: lane i)
  case Nil
  show ?case by (simp add: lanes_from_simps)
next
  case (Cons p ps)
  show ?case
  proof (cases p)
    case False
    then show ?thesis using Cons.IH [of "Suc lane" i] by (simp add: lanes_from_simps)
  next
    case True
    then have p: "p = True" by simp
    show ?thesis
    proof (cases "mk lane i")
      case (Inl e)
      show ?thesis
        unfolding p using Inl by (intro exI [of _ 0]) simp
    next
      case (Inr s)
      from Cons.IH [of "Suc lane" "Suc i"] obtain k where
        k: "map fst (fst (lanes_trace mk t ps (Suc lane) (Suc i) [])) =
              map (\<lambda>l. (l, t)) (take k (lanes_from (Suc lane) ps))"
           "snd (lanes_trace mk t ps (Suc lane) (Suc i) []) = None \<longrightarrow>
              k = length (lanes_from (Suc lane) ps)"
        by auto
      note step = lanes_trace_True_Inr [of mk lane i s t ps, OF Inr]
      show ?thesis
        unfolding p step using k by (intro exI [of _ "Suc k"]) (simp add: lanes_from_simps)
    qed
  qed
qed

lemma lanes_trace_elem:
  "((l, t'), s) \<in> set (fst (lanes_trace mk t ps lane i [])) \<Longrightarrow>
     t' = t \<and> lane \<le> l \<and> l - lane < length ps \<and> ps ! (l - lane)
     \<and> mk l (i + length (filter (\<lambda>p. p) (take (l - lane) ps))) = Inr s"
proof (induction ps arbitrary: lane i)
  case Nil
  then show ?case by simp
next
  case (Cons p ps)
  show ?case
  proof (cases p)
    case False
    with Cons.prems have "((l, t'), s) \<in> set (fst (lanes_trace mk t ps (Suc lane) i []))"
      by simp
    from Cons.IH [OF this] have
      ih: "t' = t" "Suc lane \<le> l" "l - Suc lane < length ps" "ps ! (l - Suc lane)"
          "mk l (i + length (filter (\<lambda>p. p) (take (l - Suc lane) ps))) = Inr s"
      by simp_all
    from ih(2) have eq: "l - lane = Suc (l - Suc lane)" by simp
    show ?thesis using ih False unfolding eq by simp
  next
    case True
    then have p: "p = True" by simp
    show ?thesis
    proof (cases "mk lane i")
      case (Inl e)
      with Cons.prems show ?thesis unfolding p by simp
    next
      case (Inr s0)
      from Cons.prems have
        "((l, t'), s) = ((lane, t), s0)
         \<or> ((l, t'), s) \<in> set (fst (lanes_trace mk t ps (Suc lane) (Suc i) []))"
        unfolding p lanes_trace_True_Inr [of mk lane i s0 t ps, OF Inr] by simp
      then show ?thesis
      proof
        assume "((l, t'), s) = ((lane, t), s0)"
        then show ?thesis using True Inr by simp
      next
        assume "((l, t'), s) \<in> set (fst (lanes_trace mk t ps (Suc lane) (Suc i) []))"
        from Cons.IH [OF this] have
          ih: "t' = t" "Suc lane \<le> l" "l - Suc lane < length ps" "ps ! (l - Suc lane)"
              "mk l (Suc i + length (filter (\<lambda>p. p) (take (l - Suc lane) ps))) = Inr s"
          by simp_all
        from ih(2) have eq: "l - lane = Suc (l - Suc lane)" by simp
        show ?thesis using ih True unfolding eq by simp
      qed
    qed
  qed
qed

lemma lanes_trace_error:
  "snd (lanes_trace mk t ps lane i []) = Some e \<Longrightarrow>
     \<exists>l j. mk l j = Inl e \<and> j < i + length (filter (\<lambda>p. p) ps)"
proof (induction ps arbitrary: lane i)
  case Nil
  then show ?case by simp
next
  case (Cons p ps)
  show ?case
  proof (cases p)
    case False
    with Cons.prems Cons.IH [of "Suc lane" i] show ?thesis by simp
  next
    case True
    then have p: "p = True" by simp
    show ?thesis
    proof (cases "mk lane i")
      case (Inl e')
      with Cons.prems have "e' = e" unfolding p by simp
      with Inl True show ?thesis
        by (intro exI [of _ lane] exI [of _ i]) simp
    next
      case (Inr s0)
      from Cons.prems have "snd (lanes_trace mk t ps (Suc lane) (Suc i) []) = Some e"
        unfolding p lanes_trace_True_Inr [of mk lane i s0 t ps, OF Inr] by simp
      from Cons.IH [OF this] True show ?thesis by auto
    qed
  qed
qed

lemma rollout_trace_acc:
  "rollout_trace adv ins outs t res =
     (res @ fst (rollout_trace adv ins outs t []), snd (rollout_trace adv ins outs t []))"
proof (induction ins arbitrary: outs t res)
  case Nil
  show ?case by simp
next
  case (Cons b ins)
  show ?case
  proof (cases outs)
    case Nil
    then show ?thesis by (simp add: Let_def)
  next
    case (Cons out outs')
    define mk where "mk = make_sample (vecToFloats (Packed b)) (Packed out)
          (length (vecToFloats (Packed b)) div NumPresent b)
          (length (Packed out) div NumPresent b) adv t"
    define L where "L = lanes_trace mk t (Present b) 0 0 []"
    have lanes: "lanes_trace mk t (Present b) 0 0 res = (res @ fst L, snd L)"
      unfolding L_def by (rule lanes_trace_acc)
    have lanes0: "lanes_trace mk t (Present b) 0 0 [] = (fst L, snd L)"
      unfolding L_def by simp
    show ?thesis
    proof (cases "snd L")
      case None
      show ?thesis
        unfolding Cons
        using Cons.IH [of outs' "Suc t" "res @ fst L"] Cons.IH [of outs' "Suc t" "fst L"]
        by (simp add: Let_def mk_def [symmetric] lanes lanes0 None)
    next
      case (Some e)
      show ?thesis
        unfolding Cons
        by (simp add: Let_def mk_def [symmetric] lanes lanes0 Some)
    qed
  qed
qed

lemma rollout_trace_Cons:
  "rollout_trace adv (b # ins) outs t [] =
     (if NumPresent b = 0 then ([], Some DivideByZero)
      else (case outs of
              [] \<Rightarrow> ([], Some NilDereference)
            | out # outs' \<Rightarrow>
                (case snd (step_trace adv b out t) of
                   Some e \<Rightarrow> (fst (step_trace adv b out t), Some e)
                 | None \<Rightarrow>
                     (fst (step_trace adv b out t) @ fst (rollout_trace adv ins outs' (Suc t) []),
                      snd (rollout_trace adv ins outs' (Suc t) [])))))"
proof (cases outs)
  case Nil
  then show ?thesis by (simp add: Let_def)
next
  case (Cons out outs')
  obtain tr st where L: "step_trace adv b out t = (tr, st)"
    by (cases "step_trace adv b out t")
  show ?thesis
    unfolding Cons
    using L rollout_trace_acc [of adv ins outs' "Suc t" tr]
    by (cases st) (simp_all add: Let_def step_trace_def)
qed

lemma pairs_from_simps:
  "pairs_from t [] = []"
  "pairs_from t (b # ins) = map (\<lambda>l. (l, t)) (present_lanes (Present b)) @ pairs_from (Suc t) ins"
  by (simp_all add: pairs_from_def)

lemma present_lanes_from: "present_lanes ps = lanes_from 0 ps"
  by (simp add: present_lanes_def lanes_from_def)

lemma length_lanes_from: "length (lanes_from lane ps) = length (filter (\<lambda>p. p) ps)"
  by (induction ps arbitrary: lane) (auto simp: lanes_from_simps)

lemma step_trace_origins:
  "\<exists>k. map fst (fst (step_trace adv b out t)) = map (\<lambda>l. (l, t)) (take k (present_lanes (Present b)))
     \<and> (snd (step_trace adv b out t) = None \<longrightarrow> k = length (present_lanes (Present b)))"
  unfolding step_trace_def present_lanes_from by (rule lanes_trace_origins)

lemma rollout_trace_origins:
  "\<exists>k. map fst (fst (rollout_trace adv ins outs t [])) = take k (pairs_from t ins)
     \<and> (snd (rollout_trace adv ins outs t []) = None \<longrightarrow> k = length (pairs_from t ins))"
proof (induction ins arbitrary: outs t)
  case Nil
  show ?case by (simp add: pairs_from_simps)
next
  case (Cons b ins)
  show ?case
  proof (cases "NumPresent b = 0")
    case True
    then show ?thesis
      unfolding rollout_trace_Cons by (intro exI [of _ 0]) simp
  next
    case False
    show ?thesis
    proof (cases outs)
      case Nil
      with False show ?thesis
        unfolding rollout_trace_Cons by (intro exI [of _ 0]) simp
    next
      case (Cons out outs')
      from step_trace_origins [of adv b out t] obtain k where
        k: "map fst (fst (step_trace adv b out t)) = map (\<lambda>l. (l, t)) (take k (present_lanes (Present b)))"
           "snd (step_trace adv b out t) = None \<longrightarrow> k = length (present_lanes (Present b))"
        by auto
      have tk: "take (min k (length xs)) xs = take k xs" for xs :: "nat list"
        by (simp add: min_def)
      show ?thesis
      proof (cases "snd (step_trace adv b out t)")
        case (Some e)
        show ?thesis
          unfolding rollout_trace_Cons Cons
          using False Some k(1)
          by (intro exI [of _ "min k (length (present_lanes (Present b)))"])
             (simp add: pairs_from_simps take_map tk)
      next
        case None
        from Cons.IH [of outs' "Suc t"] obtain k' where
          k': "map fst (fst (rollout_trace adv ins outs' (Suc t) [])) = take k' (pairs_from (Suc t) ins)"
              "snd (rollout_trace adv ins outs' (Suc t) []) = None \<longrightarrow> k' = length (pairs_from (Suc t) ins)"
          by auto
        from None k(2) have kk: "k = length (present_lanes (Present b))" by simp
        show ?thesis
          unfolding rollout_trace_Cons Cons
          using False None k(1) k' kk
          by (intro exI [of _ "length (present_lanes (Present b)) + k'"])
             (simp add: pairs_from_simps)
      qed
    qed
  qed
qed

lemma step_trace_elem:
  assumes "((l, t'), s) \<in> set (fst (step_trace adv b out t))"
  shows "t' = t \<and> l < length (Present b) \<and> Present b ! l
     \<and> make_sample (vecToFloats (Packed b)) (Packed out)
          (length (vecToFloats (Packed b)) div NumPresent b)
          (length (Packed out) div NumPresent b) adv t l
          (length (filter (\<lambda>p. p) (take l (Present b)))) = Inr s"
  using lanes_trace_elem [OF assms [unfolded step_trace_def]] by simp

lemma rollout_trace_elem:
  "((l, t), s) \<in> set (fst (rollout_trace adv ins outs t0 [])) \<Longrightarrow>
     t0 \<le> t \<and> t - t0 < length ins \<and> t - t0 < length outs
     \<and> 0 < NumPresent (ins ! (t - t0))
     \<and> ((l, t), s) \<in> set (fst (step_trace adv (ins ! (t - t0)) (outs ! (t - t0)) t))"
proof (induction ins arbitrary: outs t0)
  case Nil
  then show ?case by simp
next
  case (Cons b ins)
  from Cons.prems have np: "0 < NumPresent b"
    unfolding rollout_trace_Cons by (auto split: if_splits)
  from Cons.prems np obtain out outs' where outs: "outs = out # outs'"
    unfolding rollout_trace_Cons by (cases outs) auto
  from Cons.prems np have
    "((l, t), s) \<in> set (fst (step_trace adv b out t0))
     \<or> ((l, t), s) \<in> set (fst (rollout_trace adv ins outs' (Suc t0) []))"
    unfolding rollout_trace_Cons outs by (auto split: option.splits)
  then show ?case
  proof
    assume here: "((l, t), s) \<in> set (fst (step_trace adv b out t0))"
    from step_trace_elem [OF here] have "t = t0" by simp
    with here np show ?thesis unfolding outs by simp
  next
    assume "((l, t), s) \<in> set (fst (rollout_trace adv ins outs' (Suc t0) []))"
    from Cons.IH [OF this] have
      ih: "Suc t0 \<le> t" "t - Suc t0 < length ins" "t - Suc t0 < length outs'"
          "0 < NumPresent (ins ! (t - Suc t0))"
          "((l, t), s) \<in> set (fst (step_trace adv (ins ! (t - Suc t0)) (outs' ! (t - Suc t0)) t))"
      by simp_all
    from ih(1) have eq: "t - t0 = Suc (t - Suc t0)" by simp
    show ?thesis using ih unfolding outs eq by simp
  qed
qed

lemma make_sample_Inr:
  assumes "make_sample inValues outPacked numFeatures numActions adv t l i = Inr s"
  shows "l < length adv \<and> t < length (adv ! l) \<and> Advantage s = adv ! l ! t
     \<and> Action s = int (MaxIndex (take numActions (drop (i * numActions) outPacked)))
     \<and> s = memorySample (take numFeatures (drop (i * numFeatures) inValues))
              (int (MaxIndex (take numActions (drop (i * numActions) outPacked)))) (adv ! l ! t)"
  using assms
  by (auto simp: make_sample_def slice_def advantage_at_def index_def Let_def
           split: if_splits sum.splits)

lemma make_sample_Inl:
  "make_sample inValues outPacked numFeatures numActions adv t l i = Inl e \<Longrightarrow>
     e = SliceOutOfRange \<or> e = IndexOutOfRange"
  by (auto simp: make_sample_def slice_def advantage_at_def index_def Let_def
           split: if_splits sum.splits)

lemma step_trace_error:
  "snd (step_trace adv b out t) = Some e \<Longrightarrow> e = SliceOutOfRange \<or> e = IndexOutOfRange"
  unfolding step_trace_def
  by (drule lanes_trace_error) (auto dest: make_sample_Inl)

lemma rollout_trace_DivideByZero:
  "snd (rollout_trace adv ins outs t []) = Some DivideByZero \<Longrightarrow> \<exists>b \<in> set ins. NumPresent b = 0"
proof (induction ins arbitrary: outs t)
  case Nil
  then show ?case by simp
next
  case (Cons b ins)
  show ?case
  proof (cases "NumPresent b = 0")
    case True
    then show ?thesis by simp
  next
    case False
    with Cons.prems obtain out outs' where outs: "outs = out # outs'"
      unfolding rollout_trace_Cons by (cases outs) auto
    from Cons.prems False step_trace_error [of adv b out t]
    have "snd (rollout_trace adv ins outs' (Suc t) []) = Some DivideByZero"
      unfolding rollout_trace_Cons outs by (auto split: option.splits)
    from Cons.IH [OF this] show ?thesis by simp
  qed
qed

lemma rollout_trace_short:
  "length outs < length ins \<Longrightarrow> snd (rollout_trace adv ins outs t []) \<noteq> None"
proof (induction ins arbitrary: outs t)
  case Nil
  then show ?case by simp
next
  case (Cons b ins)
  show ?case
  proof (cases outs)
    case Nil
    then show ?thesis unfolding rollout_trace_Cons by simp
  next
    case (Cons out outs')
    with Cons.prems have "length outs' < length ins" by simp
    from Cons.IH [OF this] show ?thesis
      unfolding rollout_trace_Cons Cons by (simp split: option.splits)
  qed
qed

lemma rollout_loop_all_absent:
  "rollout_loop adv ins1 outs t res = (res', None) \<Longrightarrow> NumPresent b = 0 \<Longrightarrow>
     rollout_loop adv (ins1 @ b # ins2) outs t res = (res', Some DivideByZero)"
proof (induction ins1 arbitrary: outs t res)
  case Nil
  then show ?case by (simp add: Let_def split: prod.splits)
next
  case (Cons a ins1)
  show ?case
  proof (cases outs)
    case Nil
    with Cons.prems show ?thesis by (simp add: Let_def split: if_splits)
  next
    case (Cons out outs')
    with Cons.prems Cons.IH show ?thesis
      by (auto simp: Let_def split: if_splits prod.splits option.splits)
  qed
qed

lemma lanes_from_bounds: "l \<in> set (lanes_from lane ps) \<Longrightarrow> lane \<le> l"
  by (auto simp: lanes_from_def in_set_enumerate_eq)

lemma sorted_lanes_from: "sorted_wrt (<) (lanes_from lane ps)"
proof (induction ps arbitrary: lane)
  case Nil
  show ?case by (simp add: lanes_from_simps)
next
  case (Cons p ps)
  have "lane < l" if "l \<in> set (lanes_from (Suc lane) ps)" for l
    using lanes_from_bounds [OF that] by simp
  then show ?case
    using Cons.IH [of "Suc lane"] by (cases p) (simp_all add: lanes_from_simps)
qed

lemma pairs_from_bounds: "(l, t) \<in> set (pairs_from t0 ins) \<Longrightarrow> t0 \<le> t"
proof (induction ins arbitrary: t0)
  case Nil
  then show ?case by (simp add: pairs_from_simps)
next
  case (Cons b ins)
  then show ?case by (fastforce simp: pairs_from_simps)
qed

lemma sorted_pairs_from: "sorted_wrt before (pairs_from t ins)"
proof (induction ins arbitrary: t)
  case Nil
  show ?case by (simp add: pairs_from_simps)
next
  case (Cons b ins)
  have here: "sorted_wrt before (map (\<lambda>l. (l, t)) (present_lanes (Present b)))"
    using sorted_lanes_from [of 0 "Present b"]
    by (simp add: sorted_wrt_map before_def present_lanes_from)
  have cross: "before p q"
    if "p \<in> set (map (\<lambda>l. (l, t)) (present_lanes (Present b)))" "q \<in> set (pairs_from (Suc t) ins)"
    for p q
  proof -
    from that(1) have "snd p = t" by auto
    moreover from that(2) pairs_from_bounds [of "fst q" "snd q" "Suc t" ins]
    have "Suc t \<le> snd q" by simp
    ultimately show ?thesis by (simp add: before_def)
  qed
  show ?case
    using here Cons.IH [of "Suc t"] cross
    by (simp add: pairs_from_simps sorted_wrt_append)
qed

lemma length_pairs_from: "length (pairs_from t ins) = (\<Sum>b\<leftarrow>ins. NumPresent b)"
  by (induction ins arbitrary: t)
     (simp_all add: pairs_from_simps present_lanes_from length_lanes_from NumPresent_def)

lemma present_pairs_from: "present_pairs ins = pairs_from 0 ins"
  by (simp add: present_pairs_def pairs_from_def)

lemma index_of_mem:
  "y \<in> set v \<Longrightarrow> index_of y v < length v \<and> v ! index_of y v = y \<and> (\<forall>j < index_of y v. v ! j \<noteq> y)"
proof (induction v)
  case Nil
  then show ?case by simp
next
  case (Cons x v)
  show ?case
  proof (cases "x = y")
    case True
    then show ?thesis by simp
  next
    case False
    with Cons.prems have "y \<in> set v" by simp
    from Cons.IH [OF this] False show ?thesis
      by (auto simp: nth_Cons split: nat.splits)
  qed
qed

lemma MaxIndex_first_max:
  assumes "v \<noteq> []"
  shows "MaxIndex v < length v \<and> (\<forall>j < length v. v ! j \<le> v ! MaxIndex v)
     \<and> (\<forall>j < MaxIndex v. v ! j < v ! MaxIndex v)"
proof -
  from assms obtain x xs where v: "v = x # xs" by (cases v) auto
  define m where "m = Max (set v)"
  have fold: "fold max xs x = m"
    unfolding m_def v by (rule Max.set_eq_fold [symmetric])
  have mi: "MaxIndex v = index_of m v"
    unfolding MaxIndex_def v fold [symmetric] by simp
  have mem: "m \<in> set v" unfolding m_def using assms by (intro Max_in) simp_all
  have le: "y \<le> m" if "y \<in> set v" for y unfolding m_def using that by simp
  from index_of_mem [OF mem] have
    io: "index_of m v < length v" "v ! index_of m v = m" "\<forall>j < index_of m v. v ! j \<noteq> m"
    by simp_all
  have "v ! j \<le> m" if "j < length v" for j using le [of "v ! j"] that by simp
  moreover have "v ! j < m" if "j < index_of m v" for j
  proof -
    from that io(1) have "j < length v" by simp
    then have "v ! j \<le> m" using le [of "v ! j"] by simp
    moreover from io(3) that have "v ! j \<noteq> m" by simp
    ultimately show ?thesis by simp
  qed
  ultimately show ?thesis using io(1,2) unfolding mi by simp
qed

section \<open>RolloutSamples\<close>

lemma RolloutSamples_trace:
  "RolloutSamples r adv = (map snd (fst (RolloutTrace r adv)), snd (RolloutTrace r adv))"
  using rollout_loop_trace [of adv "Inputs r" "Actions r" 0 "[]"]
  by (simp add: RolloutSamples_def RolloutTrace_def)

lemma length_origins: "length (origins r adv) = length (fst (RolloutSamples r adv))"
  by (simp add: origins_def RolloutSamples_trace)

lemma origins_prefix:
  "\<exists>k. origins r adv = take k (present_pairs (Inputs r))
     \<and> (snd (RolloutSamples r adv) = None \<longrightarrow> k = length (present_pairs (Inputs r)))"
  using rollout_trace_origins [of adv "Inputs r" "Actions r" 0]
  by (simp add: origins_def RolloutTrace_def RolloutSamples_trace present_pairs_from)

lemma RolloutTrace_nth:
  assumes "n < length (fst (RolloutSamples r adv))" and "origins r adv ! n = (l, t)"
  shows "((l, t), fst (RolloutSamples r adv) ! n) \<in> set (fst (RolloutTrace r adv))"
proof -
  from assms(1) have n: "n < length (fst (RolloutTrace r adv))"
    by (simp add: RolloutSamples_trace)
  then have "fst (RolloutTrace r adv) ! n = (origins r adv ! n, fst (RolloutSamples r adv) ! n)"
    by (simp add: origins_def RolloutSamples_trace prod_eq_iff)
  with assms(2) n show ?thesis by (metis nth_mem)
qed

lemma RolloutTrace_elem:
  assumes "((l, t), s) \<in> set (fst (RolloutTrace r adv))"
  shows "t < length (Inputs r) \<and> t < length (Actions r)
     \<and> l < length (Present (Inputs r ! t)) \<and> Present (Inputs r ! t) ! l
     \<and> l < length adv \<and> t < length (adv ! l)
     \<and> s = memorySample (lane_part (Packed (Inputs r ! t)) (Present (Inputs r ! t)) l)
              (int (MaxIndex (lane_part (Packed (Actions r ! t)) (Present (Inputs r ! t)) l)))
              (adv ! l ! t)"
proof -
  from rollout_trace_elem [OF assms [unfolded RolloutTrace_def]] have
    t: "t < length (Inputs r)" "t < length (Actions r)"
    and st: "((l, t), s) \<in> set (fst (step_trace adv (Inputs r ! t) (Actions r ! t) t))"
    by simp_all
  from step_trace_elem [OF st] have
    l: "l < length (Present (Inputs r ! t))" "Present (Inputs r ! t) ! l"
    and mk: "make_sample (vecToFloats (Packed (Inputs r ! t))) (Packed (Actions r ! t))
          (length (vecToFloats (Packed (Inputs r ! t))) div NumPresent (Inputs r ! t))
          (length (Packed (Actions r ! t)) div NumPresent (Inputs r ! t)) adv t l
          (length (filter (\<lambda>p. p) (take l (Present (Inputs r ! t))))) = Inr s"
    by simp_all
  from make_sample_Inr [OF mk] t l show ?thesis
    by (simp add: lane_part_def Let_def vecToFloats_def NumPresent_def)
qed

lemma slice_part:
  assumes "i < batch"
  shows "slice xs (i * (length xs div batch)) ((i + 1) * (length xs div batch))
           = Inr (take (length xs div batch) (drop (i * (length xs div batch)) xs))"
proof -
  define w where "w = length xs div batch"
  from assms have "(i + 1) * w \<le> batch * w" by (intro mult_le_mono1) simp
  also have "batch * w \<le> length xs" unfolding w_def by simp
  finally have "(i + 1) * w \<le> length xs" .
  then show ?thesis
    unfolding w_def [symmetric] by (simp add: slice_def)
qed

lemma make_sample_Inl_index:
  assumes "i < batch"
    and "make_sample inValues outPacked (length inValues div batch) (length outPacked div batch)
           adv t l i = Inl e"
  shows "e = IndexOutOfRange \<and> \<not> (l < length adv \<and> t < length (adv ! l))"
  using assms(2)
  unfolding make_sample_def slice_part [OF assms(1)]
  by (auto simp: advantage_at_def index_def Let_def split: if_splits sum.splits)

lemma lanes_trace_error_at:
  "snd (lanes_trace mk t ps lane i []) = Some e \<Longrightarrow>
     \<exists>l \<in> set (lanes_from lane ps). \<exists>j. j < i + length (filter (\<lambda>p. p) ps) \<and> mk l j = Inl e"
proof (induction ps arbitrary: lane i)
  case Nil
  then show ?case by simp
next
  case (Cons p ps)
  show ?case
  proof (cases p)
    case False
    with Cons.prems Cons.IH [of "Suc lane" i] show ?thesis
      by (simp add: lanes_from_simps)
  next
    case True
    then have p: "p = True" by simp
    show ?thesis
    proof (cases "mk lane i")
      case (Inl e')
      with Cons.prems have "e' = e" unfolding p by simp
      with Inl show ?thesis
        unfolding p by (auto simp: lanes_from_simps intro!: exI [of _ i])
    next
      case (Inr s0)
      from Cons.prems have "snd (lanes_trace mk t ps (Suc lane) (Suc i) []) = Some e"
        unfolding p lanes_trace_True_Inr [of mk lane i s0 t ps, OF Inr] by simp
      from Cons.IH [OF this] show ?thesis
        unfolding p by (auto simp: lanes_from_simps)
    qed
  qed
qed

lemma step_trace_error_index:
  assumes "snd (step_trace adv b out t) = Some e"
  shows "e = IndexOutOfRange
     \<and> (\<exists>l \<in> set (present_lanes (Present b)). \<not> (l < length adv \<and> t < length (adv ! l)))"
proof -
  from lanes_trace_error_at [OF assms [unfolded step_trace_def]] obtain l j where
    l: "l \<in> set (present_lanes (Present b))" and j: "j < NumPresent b"
    and mk: "make_sample (vecToFloats (Packed b)) (Packed out)
          (length (vecToFloats (Packed b)) div NumPresent b)
          (length (Packed out) div NumPresent b) adv t l j = Inl e"
    by (auto simp: present_lanes_from NumPresent_def)
  from make_sample_Inl_index [OF j mk] l show ?thesis by blast
qed

lemma rollout_trace_error:
  "snd (rollout_trace adv ins outs t []) = Some e \<Longrightarrow>
     (e = DivideByZero \<and> (\<exists>b \<in> set ins. NumPresent b = 0))
     \<or> (e = NilDereference \<and> length outs < length ins)
     \<or> (e = IndexOutOfRange
          \<and> (\<exists>p \<in> set (pairs_from t ins). \<not> (fst p < length adv \<and> snd p < length (adv ! fst p))))"
proof (induction ins arbitrary: outs t)
  case Nil
  then show ?case by simp
next
  case (Cons b ins)
  show ?case
  proof (cases "NumPresent b = 0")
    case True
    with Cons.prems show ?thesis unfolding rollout_trace_Cons by simp
  next
    case False
    show ?thesis
    proof (cases outs)
      case Nil
      with Cons.prems False show ?thesis unfolding rollout_trace_Cons by simp
    next
      case (Cons out outs')
      show ?thesis
      proof (cases "snd (step_trace adv b out t)")
        case (Some e')
        with Cons.prems False have "e' = e" unfolding rollout_trace_Cons Cons by simp
        with step_trace_error_index [OF Some] obtain l where
          e: "e = IndexOutOfRange" and l: "l \<in> set (present_lanes (Present b))"
          and bad: "\<not> (l < length adv \<and> t < length (adv ! l))"
          by auto
        from l have "(l, t) \<in> set (pairs_from t (b # ins))"
          by (simp add: pairs_from_simps)
        with bad have "\<exists>p \<in> set (pairs_from t (b # ins)).
            \<not> (fst p < length adv \<and> snd p < length (adv ! fst p))"
          by (intro bexI [of _ "(l, t)"]) simp_all
        with e show ?thesis by simp
      next
        case None
        with Cons.prems False have "snd (rollout_trace adv ins outs' (Suc t) []) = Some e"
          unfolding rollout_trace_Cons Cons by simp
        from Cons.IH [OF this] show ?thesis
          unfolding Cons by (auto simp: pairs_from_simps)
      qed
    qed
  qed
qed

lemma RolloutSamples_returns:
  assumes "length (Inputs r) \<le> length (Actions r)"
    and "\<forall>b \<in> set (Inputs r). True \<in> set (Present b)"
    and "\<forall>p \<in> set (present_pairs (Inputs r)). fst p < length adv \<and> snd p < length (adv ! fst p)"
  shows "snd (RolloutSamples r adv) = None"
proof (cases "snd (RolloutSamples r adv)")
  case None
  then show ?thesis .
next
  case (Some e)
  then have "snd (rollout_trace adv (Inputs r) (Actions r) 0 []) = Some e"
    by (simp add: RolloutSamples_trace RolloutTrace_def)
  from rollout_trace_error [OF this] assms show ?thesis
    by (auto simp: present_pairs_from NumPresent_def filter_empty_conv)
qed

text \<open>
  Claim C1. The samples that RolloutSamples sends are in timestep-major, lane-minor order:
  the n-th sample sent comes from the n-th pair of the enumeration of the present
  (lane, timestep) pairs, timestep by timestep and by ascending lane within a timestep.
  Hence a sample of an earlier timestep is sent before every sample of a later one, and
  within a timestep the lanes ascend. When the goroutine returns, every pair of the
  enumeration has been sent.
\<close>

theorem RolloutSamples_order:
  "map snd (fst (RolloutTrace r adv)) = fst (RolloutSamples r adv)
   \<and> length (origins r adv) = length (fst (RolloutSamples r adv))
   \<and> (\<forall>n < length (fst (RolloutSamples r adv)).
         n < length (present_pairs (Inputs r))
         \<and> origins r adv ! n = present_pairs (Inputs r) ! n)
   \<and> (\<forall>n m. n < m \<and> m < length (fst (RolloutSamples r adv)) \<longrightarrow>
         before (origins r adv ! n) (origins r adv ! m))
   \<and> (snd (RolloutSamples r adv) = None \<longrightarrow> origins r adv = present_pairs (Inputs r))"
proof -
  from origins_prefix [of r adv] obtain k where
    k: "origins r adv = take k (present_pairs (Inputs r))"
       "snd (RolloutSamples r adv) = None \<longrightarrow> k = length (present_pairs (Inputs r))"
    by auto
  have len: "length (origins r adv) = length (fst (RolloutSamples r adv))"
    by (rule length_origins)
  have nth: "n < length (present_pairs (Inputs r))
       \<and> origins r adv ! n = present_pairs (Inputs r) ! n"
    if "n < length (fst (RolloutSamples r adv))" for n
  proof -
    from that len have "n < length (take k (present_pairs (Inputs r)))"
      using k(1) by simp
    then show ?thesis using k(1) by simp
  qed
  have "sorted_wrt before (origins r adv)"
    unfolding k(1) using sorted_pairs_from [of 0 "Inputs r"]
    by (simp add: present_pairs_from sorted_wrt_take)
  then have ord: "before (origins r adv ! n) (origins r adv ! m)"
    if "n < m" "m < length (fst (RolloutSamples r adv))" for n m
    using that len by (simp add: sorted_wrt_iff_nth_less)
  have "origins r adv = present_pairs (Inputs r)" if "snd (RolloutSamples r adv) = None"
    using k that by simp
  with len nth ord show ?thesis
    by (simp add: RolloutSamples_trace)
qed

theorem RolloutSamples_order_witness:
  "RolloutSamples ex_rollouts ex_advantages = (ex_samples, None)
   \<and> present_pairs (Inputs ex_rollouts) = [(0, 0), (1, 0), (0, 1)]
   \<and> origins ex_rollouts ex_advantages = [(0, 0), (1, 0), (0, 1)]
   \<and> origins ex_rollouts ex_advantages ! 2 = present_pairs (Inputs ex_rollouts) ! 2
   \<and> before (origins ex_rollouts ex_advantages ! 1) (origins ex_rollouts ex_advantages ! 2)"
proof -
  have run: "RolloutSamples ex_rollouts ex_advantages = (ex_samples, None)"
    by code_simp
  have len: "length ex_samples = 3"
    by (simp add: ex_samples_def)
  have pairs: "present_pairs (Inputs ex_rollouts) = [(0, 0), (1, 0), (0, 1)]"
    by code_simp
  note order = RolloutSamples_order [of ex_rollouts ex_advantages, unfolded run fst_conv snd_conv len]
  from order have all: "origins ex_rollouts ex_advantages = present_pairs (Inputs ex_rollouts)"
    by simp
  from order have "\<forall>n m. n < m \<and> m < 3 \<longrightarrow>
      before (origins ex_rollouts ex_advantages ! n) (origins ex_rollouts ex_advantages ! m)"
    by blast
  from this [rule_format, of 1 2]
  have "before (origins ex_rollouts ex_advantages ! 1) (origins ex_rollouts ex_advantages ! 2)"
    by simp
  with run pairs all show ?thesis by simp
qed

text \<open>
  Claim C2. A sample that RolloutSamples sends for lane l at timestep t comes from a lane
  that is present at t, and its advantage is the table entry advantage[l][t].
\<close>

theorem RolloutSamples_advantage:
  assumes "n < length (fst (RolloutSamples r adv))" and "origins r adv ! n = (l, t)"
  shows "t < length (Inputs r) \<and> l < length (Present (Inputs r ! t)) \<and> Present (Inputs r ! t) ! l
     \<and> l < length adv \<and> t < length (adv ! l)
     \<and> Advantage (fst (RolloutSamples r adv) ! n) = adv ! l ! t"
  using RolloutTrace_elem [OF RolloutTrace_nth [OF assms]] by simp

theorem RolloutSamples_advantage_witness:
  "1 < length (fst (RolloutSamples ex_rollouts ex_advantages))
   \<and> origins ex_rollouts ex_advantages ! 1 = (1, 0)
   \<and> Present (Inputs ex_rollouts ! 0) ! 1
   \<and> Advantage (fst (RolloutSamples ex_rollouts ex_advantages) ! 1) = ex_advantages ! 1 ! 0
   \<and> ex_advantages ! 1 ! 0 = - 1 / 5"
proof -
  have n: "1 < length (fst (RolloutSamples ex_rollouts ex_advantages))"
    by code_simp
  have orig: "origins ex_rollouts ex_advantages ! 1 = (1, 0)"
    by code_simp
  have "ex_advantages ! 1 ! 0 = - 1 / 5"
    by (simp add: ex_advantages_def)
  with RolloutSamples_advantage [OF n orig] n orig show ?thesis by simp
qed

text \<open>
  Claim C4. The action of a sample that RolloutSamples sends for lane l at timestep t is
  MaxIndex of the part of the packed action batch of t that belongs to lane l. When this
  part is not empty, the action is an index of it, no value of the part is greater than
  the value at the action, and every value before the action is smaller: the action is
  the lowest index of a maximum.
\<close>

theorem RolloutSamples_action:
  assumes "n < length (fst (RolloutSamples r adv))" and "origins r adv ! n = (l, t)"
    and "v = lane_part (Packed (Actions r ! t)) (Present (Inputs r ! t)) l"
  shows "Action (fst (RolloutSamples r adv) ! n) = int (MaxIndex v)
     \<and> (v \<noteq> [] \<longrightarrow>
          MaxIndex v < length v
          \<and> (\<forall>j < length v. v ! j \<le> v ! MaxIndex v)
          \<and> (\<forall>j < MaxIndex v. v ! j < v ! MaxIndex v))"
proof -
  have "Action (fst (RolloutSamples r adv) ! n) = int (MaxIndex v)"
    using RolloutTrace_elem [OF RolloutTrace_nth [OF assms(1,2)]] assms(3) by simp
  then show ?thesis using MaxIndex_first_max [of v] by blast
qed

theorem RolloutSamples_action_witness:
  "1 < length (fst (RolloutSamples ex_rollouts ex_advantages))
   \<and> origins ex_rollouts ex_advantages ! 1 = (1, 0)
   \<and> lane_part (Packed (Actions ex_rollouts ! 0)) (Present (Inputs ex_rollouts ! 0)) 1 = [5, 5, 4]
   \<and> Action (fst (RolloutSamples ex_rollouts ex_advantages) ! 1) = 0
   \<and> MaxIndex [5, 5, 4] = 0"
proof -
  have n: "1 < length (fst (RolloutSamples ex_rollouts ex_advantages))"
    by code_simp
  have orig: "origins ex_rollouts ex_advantages ! 1 = (1, 0)"
    by code_simp
  have part: "[5, 5, 4] = lane_part (Packed (Actions ex_rollouts ! 0)) (Present (Inputs ex_rollouts ! 0)) 1"
    by code_simp
  have mi: "MaxIndex [5, 5, 4] = 0"
    by (simp add: MaxIndex_def)
  from RolloutSamples_action [OF n orig part] n orig part mi show ?thesis by simp
qed

text \<open>
  Claim C3, as amended. When RolloutSamples runs to its end, the number of samples sent is the number
  of (lane, timestep) pairs marked present in the input batches; a run that panics has sent
  at most that many. The run does go to its end when there is an action batch for every
  input batch, every presence mask marks a lane present, and the advantage table has an
  entry for every present pair.
\<close>

theorem RolloutSamples_count:
  "length (fst (RolloutSamples r adv)) \<le> (\<Sum>b\<leftarrow>Inputs r. length (filter (\<lambda>p. p) (Present b)))
   \<and> (snd (RolloutSamples r adv) = None \<longrightarrow>
        length (fst (RolloutSamples r adv)) = (\<Sum>b\<leftarrow>Inputs r. length (filter (\<lambda>p. p) (Present b))))
   \<and> (length (Inputs r) \<le> length (Actions r)
        \<and> (\<forall>b \<in> set (Inputs r). True \<in> set (Present b))
        \<and> (\<forall>p \<in> set (present_pairs (Inputs r)).
              fst p < length adv \<and> snd p < length (adv ! fst p)) \<longrightarrow>
        snd (RolloutSamples r adv) = None)"
proof -
  have total: "length (present_pairs (Inputs r)) = (\<Sum>b\<leftarrow>Inputs r. length (filter (\<lambda>p. p) (Present b)))"
    using length_pairs_from [of 0 "Inputs r"] by (simp add: present_pairs_from NumPresent_def)
  from origins_prefix [of r adv] obtain k where
    k: "origins r adv = take k (present_pairs (Inputs r))"
       "snd (RolloutSamples r adv) = None \<longrightarrow> k = length (present_pairs (Inputs r))"
    by auto
  from k(1) have "length (fst (RolloutSamples r adv)) = min k (length (present_pairs (Inputs r)))"
    using length_origins [of r adv] by (metis length_take min.commute)
  with k(2) total have
    "length (fst (RolloutSamples r adv)) \<le> (\<Sum>b\<leftarrow>Inputs r. length (filter (\<lambda>p. p) (Present b)))"
    "snd (RolloutSamples r adv) = None \<longrightarrow>
        length (fst (RolloutSamples r adv)) = (\<Sum>b\<leftarrow>Inputs r. length (filter (\<lambda>p. p) (Present b)))"
    by auto
  then show ?thesis
    using RolloutSamples_returns [of r adv] by blast
qed

theorem RolloutSamples_count_witness:
  "length (Inputs ex_rollouts) \<le> length (Actions ex_rollouts)
   \<and> present_pairs (Inputs ex_rollouts) = [(0, 0), (1, 0), (0, 1)]
   \<and> snd (RolloutSamples ex_rollouts ex_advantages) = None
   \<and> length (fst (RolloutSamples ex_rollouts ex_advantages)) = 3
   \<and> (\<Sum>b\<leftarrow>Inputs ex_rollouts. length (filter (\<lambda>p. p) (Present b))) = 3"
proof -
  have lockstep: "length (Inputs ex_rollouts) \<le> length (Actions ex_rollouts)"
    by (simp add: ex_rollouts_def)
  have present: "\<forall>b \<in> set (Inputs ex_rollouts). True \<in> set (Present b)"
    by (simp add: ex_rollouts_def)
  have pairs: "present_pairs (Inputs ex_rollouts) = [(0, 0), (1, 0), (0, 1)]"
    by code_simp
  have covered: "\<forall>p \<in> set (present_pairs (Inputs ex_rollouts)).
      fst p < length ex_advantages \<and> snd p < length (ex_advantages ! fst p)"
    unfolding pairs by (simp add: ex_advantages_def)
  have total: "(\<Sum>b\<leftarrow>Inputs ex_rollouts. length (filter (\<lambda>p. p) (Present b))) = 3"
    by (simp add: ex_rollouts_def)
  note count = RolloutSamples_count [of ex_rollouts ex_advantages]
  from count lockstep present covered
  have run: "snd (RolloutSamples ex_rollouts ex_advantages) = None"
    by blast
  with count total lockstep pairs show ?thesis by simp
qed

text \<open>
  As written, for every rollout batch, claim C3 fails: a timestep at which no lane is
  present stops the run with a division by zero (line 42), before the samples of the
  later timesteps. Here one lane is present at timesteps 0 and 2 and absent at 1; one
  sample is sent and two pairs are present.
\<close>

theorem RolloutSamples_count_counterexample:
  "length (Inputs ex_reappear) = length (Actions ex_reappear)
   \<and> present_pairs (Inputs ex_reappear) = [(0, 0), (0, 2)]
   \<and> sum_list (map NumPresent (Inputs ex_reappear)) = 2
   \<and> RolloutSamples ex_reappear ex_reappear_advantages
       = ([memorySample [1] 0 1], Some DivideByZero)
   \<and> length (fst (RolloutSamples ex_reappear ex_reappear_advantages))
       \<noteq> sum_list (map NumPresent (Inputs ex_reappear))"
proof -
  have run: "RolloutSamples ex_reappear ex_reappear_advantages
       = ([memorySample [1] 0 1], Some DivideByZero)"
    by code_simp
  have total: "sum_list (map NumPresent (Inputs ex_reappear)) = 2"
    by (simp add: ex_reappear_def NumPresent_def)
  have pairs: "present_pairs (Inputs ex_reappear) = [(0, 0), (0, 2)]"
    by code_simp
  have lockstep: "length (Inputs ex_reappear) = length (Actions ex_reappear)"
    by (simp add: ex_reappear_def)
  show ?thesis
    unfolding run total using pairs lockstep by simp
qed

text \<open>
  Claim C8. When the action tape holds fewer batches than the input tape, RolloutSamples
  ends in a panic, and every sample it has sent belongs to a timestep that has an action
  batch: nothing is sent for the unmatched timesteps and the run does not return normally.
  When nothing else is wrong (every presence mask marks a lane present and the advantage
  table has an entry for every present pair), the panic is the dereference of the nil
  action batch.
\<close>

theorem RolloutSamples_actions_short:
  assumes "length (Actions r) < length (Inputs r)"
  shows "snd (RolloutSamples r adv) \<noteq> None
     \<and> (\<forall>n < length (fst (RolloutSamples r adv)). snd (origins r adv ! n) < length (Actions r))
     \<and> ((\<forall>b \<in> set (Inputs r). True \<in> set (Present b))
          \<and> (\<forall>p \<in> set (present_pairs (Inputs r)).
                fst p < length adv \<and> snd p < length (adv ! fst p)) \<longrightarrow>
          snd (RolloutSamples r adv) = Some NilDereference)"
proof -
  have panic: "snd (RolloutSamples r adv) \<noteq> None"
    using rollout_trace_short [OF assms, of adv 0]
    by (simp add: RolloutSamples_trace RolloutTrace_def)
  have sent: "snd (origins r adv ! n) < length (Actions r)"
    if "n < length (fst (RolloutSamples r adv))" for n
    using RolloutTrace_elem [OF RolloutTrace_nth [OF that, of "fst (origins r adv ! n)" "snd (origins r adv ! n)"]]
    by simp
  have nil: "snd (RolloutSamples r adv) = Some NilDereference"
    if "\<forall>b \<in> set (Inputs r). True \<in> set (Present b)"
      and "\<forall>p \<in> set (present_pairs (Inputs r)). fst p < length adv \<and> snd p < length (adv ! fst p)"
  proof -
    from panic obtain e where e: "snd (RolloutSamples r adv) = Some e" by auto
    then have "snd (rollout_trace adv (Inputs r) (Actions r) 0 []) = Some e"
      by (simp add: RolloutSamples_trace RolloutTrace_def)
    from rollout_trace_error [OF this] that have "e = NilDereference"
      by (auto simp: present_pairs_from NumPresent_def filter_empty_conv)
    with e show ?thesis by simp
  qed
  from panic sent nil show ?thesis by blast
qed

theorem RolloutSamples_actions_short_witness:
  "length (Actions ex_short) < length (Inputs ex_short)
   \<and> snd (RolloutSamples ex_short ex_advantages) \<noteq> None
   \<and> RolloutSamples ex_short ex_advantages = (take 2 ex_samples, Some NilDereference)
   \<and> snd (origins ex_short ex_advantages ! 1) < length (Actions ex_short)"
proof -
  have short: "length (Actions ex_short) < length (Inputs ex_short)"
    by (simp add: ex_short_def ex_rollouts_def)
  have run: "RolloutSamples ex_short ex_advantages = (take 2 ex_samples, Some NilDereference)"
    by code_simp
  have len: "length (take 2 ex_samples) = 2"
    by (simp add: ex_samples_def)
  note th = RolloutSamples_actions_short [OF short, of ex_advantages, unfolded run fst_conv snd_conv len]
  from th have "\<forall>n < 2. snd (origins ex_short ex_advantages ! n) < length (Actions ex_short)"
    by blast
  from this [rule_format, of 1]
  have "snd (origins ex_short ex_advantages ! 1) < length (Actions ex_short)"
    by simp
  with short run show ?thesis by simp
qed

text \<open>
  Claim C10. RolloutSamples divides by the number of present lanes of every input batch.
  When every presence mask marks a lane present, the run never panics with a division by
  zero. When the run reaches a batch whose mask marks no lane present (the run on the
  batches before it returns), it panics there with a division by zero, after the samples
  of the batches before it.
\<close>

theorem RolloutSamples_division:
  "((\<forall>b \<in> set (Inputs r). True \<in> set (Present b)) \<longrightarrow>
      snd (RolloutSamples r adv) \<noteq> Some DivideByZero)
   \<and> (\<forall>k res. k < length (Inputs r) \<and> True \<notin> set (Present (Inputs r ! k))
         \<and> RolloutSamples (r\<lparr>Inputs := take k (Inputs r)\<rparr>) adv = (res, None) \<longrightarrow>
         RolloutSamples r adv = (res, Some DivideByZero))"
proof -
  have np: "NumPresent b = 0 \<longleftrightarrow> True \<notin> set (Present b)" for b
    by (auto simp: NumPresent_def filter_empty_conv)
  have one: "snd (RolloutSamples r adv) \<noteq> Some DivideByZero"
    if "\<forall>b \<in> set (Inputs r). True \<in> set (Present b)"
  proof
    assume "snd (RolloutSamples r adv) = Some DivideByZero"
    then have "snd (rollout_trace adv (Inputs r) (Actions r) 0 []) = Some DivideByZero"
      by (simp add: RolloutSamples_trace RolloutTrace_def)
    from rollout_trace_DivideByZero [OF this] that show False
      by (auto simp: np)
  qed
  have two: "RolloutSamples r adv = (res, Some DivideByZero)"
    if "k < length (Inputs r)" "True \<notin> set (Present (Inputs r ! k))"
       "RolloutSamples (r\<lparr>Inputs := take k (Inputs r)\<rparr>) adv = (res, None)" for k res
  proof -
    from that(1) have split: "Inputs r = take k (Inputs r) @ Inputs r ! k # drop (Suc k) (Inputs r)"
      by (simp add: id_take_nth_drop [symmetric])
    from that(3) have "rollout_loop adv (take k (Inputs r)) (Actions r) 0 [] = (res, None)"
      by (simp add: RolloutSamples_def)
    from rollout_loop_all_absent [OF this, of "Inputs r ! k" "drop (Suc k) (Inputs r)"] that(2)
    show ?thesis
      unfolding RolloutSamples_def using split by (simp add: np)
  qed
  from one two show ?thesis by blast
qed

theorem RolloutSamples_division_witness:
  "True \<in> set (Present (Inputs ex_rollouts ! 0)) \<and> True \<in> set (Present (Inputs ex_rollouts ! 1))
   \<and> snd (RolloutSamples ex_rollouts ex_advantages) \<noteq> Some DivideByZero
   \<and> True \<notin> set (Present (Inputs ex_absent ! 1))
   \<and> RolloutSamples (ex_absent\<lparr>Inputs := take 1 (Inputs ex_absent)\<rparr>) ex_advantages
       = (take 2 ex_samples, None)
   \<and> RolloutSamples ex_absent ex_advantages = (take 2 ex_samples, Some DivideByZero)"
proof -
  have present: "\<forall>b \<in> set (Inputs ex_rollouts). True \<in> set (Present b)"
    by (simp add: ex_rollouts_def)
  have k: "1 < length (Inputs ex_absent)"
    by (simp add: ex_absent_def)
  have absent: "True \<notin> set (Present (Inputs ex_absent ! 1))"
    by (simp add: ex_absent_def)
  have before: "RolloutSamples (ex_absent\<lparr>Inputs := take 1 (Inputs ex_absent)\<rparr>) ex_advantages
       = (take 2 ex_samples, None)"
    by code_simp
  note th = RolloutSamples_division [of ex_rollouts ex_advantages]
  note th' = RolloutSamples_division [of ex_absent ex_advantages]
  from th present have one: "snd (RolloutSamples ex_rollouts ex_advantages) \<noteq> Some DivideByZero"
    by blast
  from th' k absent before
  have two: "RolloutSamples ex_absent ex_advantages = (take 2 ex_samples, Some DivideByZero)"
    by blast
  from one two absent before show ?thesis
    by (simp add: ex_rollouts_def)
qed

section \<open>Uint8Samples\<close>

lemma trunc_of_int: "trunc (of_int m) = m"
  by (simp add: trunc_def)

lemma uint8_roundtrip:
  assumes "0 \<le> m" and "m \<le> 255"
  shows "real (unat (uint8_of_float impl (of_int m))) = of_int m"
proof -
  have "take_bit 8 m = m"
    using assms by (simp add: take_bit_int_eq_self)
  then have "real (unat (word_of_int m :: uint8)) = of_int m"
    using assms by (simp add: unsigned_of_int)
  then show ?thesis
    using assms by (simp add: uint8_of_float_def trunc_of_int)
qed

lemma fill_features_result:
  "0 \<le> i \<Longrightarrow>
   (case fill_features impl inp n i feats of
      Inl e \<Rightarrow> \<exists>j. i \<le> j \<and> j < n \<and> Feature inp j = Inl e
    | Inr feats' \<Rightarrow>
        length feats' = length feats
        \<and> (\<forall>j. i \<le> j \<and> j < n \<longrightarrow>
              (\<exists>x. Feature inp j = Inr x
                 \<and> (nat j < length feats \<longrightarrow> feats' ! nat j = uint8_of_float impl x)))
        \<and> (\<forall>k < length feats. int k < i \<longrightarrow> feats' ! k = feats ! k))"
proof (induction impl inp n i feats rule: fill_features.induct)
  case (1 impl inp n i feats)
  show ?case
  proof (cases "i < n")
    case False
    then show ?thesis by (auto simp: fill_features.simps [of impl inp n i feats])
  next
    case True
    show ?thesis
    proof (cases "Feature inp i")
      case (Inl e)
      with True show ?thesis
        by (auto simp: fill_features.simps [of impl inp n i feats])
    next
      case (Inr x)
      define feats2 where "feats2 = feats[nat i := uint8_of_float impl x]"
      have unfold: "fill_features impl inp n i feats = fill_features impl inp n (i + 1) feats2"
        using True Inr by (simp add: fill_features.simps [of impl inp n i feats] feats2_def)
      have ih: "case fill_features impl inp n (i + 1) feats2 of
          Inl e \<Rightarrow> \<exists>j. i + 1 \<le> j \<and> j < n \<and> Feature inp j = Inl e
        | Inr feats' \<Rightarrow>
            length feats' = length feats2
            \<and> (\<forall>j. i + 1 \<le> j \<and> j < n \<longrightarrow>
                  (\<exists>x. Feature inp j = Inr x
                     \<and> (nat j < length feats2 \<longrightarrow> feats' ! nat j = uint8_of_float impl x)))
            \<and> (\<forall>k < length feats2. int k < i + 1 \<longrightarrow> feats' ! k = feats2 ! k)"
        using "1.IH" [OF True Inr] "1.prems" unfolding feats2_def by simp
      show ?thesis
      proof (cases "fill_features impl inp n (i + 1) feats2")
        case (Inl e)
        with ih obtain j where "i + 1 \<le> j" "j < n" "Feature inp j = Inl e" by auto
        then have "i \<le> j \<and> j < n \<and> Feature inp j = Inl e" by simp
        then show ?thesis unfolding unfold Inl by auto
      next
        case (Inr feats')
        with ih have
          len: "length feats' = length feats2"
          and later: "\<And>j. i + 1 \<le> j \<Longrightarrow> j < n \<Longrightarrow>
                \<exists>x. Feature inp j = Inr x
                   \<and> (nat j < length feats2 \<longrightarrow> feats' ! nat j = uint8_of_float impl x)"
          and earlier: "\<And>k. k < length feats2 \<Longrightarrow> int k < i + 1 \<Longrightarrow> feats' ! k = feats2 ! k"
          by auto
        have len2: "length feats2 = length feats" by (simp add: feats2_def)
        have a: "\<exists>y. Feature inp j = Inr y
                   \<and> (nat j < length feats \<longrightarrow> feats' ! nat j = uint8_of_float impl y)"
          if "i \<le> j" "j < n" for j
        proof (cases "j = i")
          case True
          have "feats' ! nat i = uint8_of_float impl x" if "nat i < length feats"
            using earlier [of "nat i"] that "1.prems" by (simp add: feats2_def)
          with True \<open>Feature inp i = Inr x\<close> show ?thesis by simp
        next
          case False
          with that have "i + 1 \<le> j" by simp
          from later [OF this that(2)] show ?thesis by (simp add: len2)
        qed
        have b: "feats' ! k = feats ! k" if "k < length feats" "int k < i" for k
          using earlier [of k] that by (simp add: feats2_def)
        from a b len len2 show ?thesis unfolding unfold Inr by simp
      qed
    qed
  qed
qed

lemma uint8_loop_acc:
  "uint8_loop impl n ins res =
     (res @ fst (uint8_loop impl n ins []), snd (uint8_loop impl n ins []))"
proof (induction ins arbitrary: res)
  case Nil
  show ?case by simp
next
  case (Cons inp ins)
  show ?case
  proof (cases "fill_features impl inp n 0 (replicate (nat n) 0)")
    case (Inl e)
    then show ?thesis by simp
  next
    case (Inr feats)
    then show ?thesis
      using Cons.IH [of "res @ [uint8Sample feats (Action inp) (Advantage inp)]"]
            Cons.IH [of "[uint8Sample feats (Action inp) (Advantage inp)]"]
      by simp
  qed
qed

lemma uint8_loop_Cons:
  "uint8_loop impl n (inp # ins) [] =
     (if n < 0 then ([], Some MakeSliceLenOutOfRange)
      else (case fill_features impl inp n 0 (replicate (nat n) 0) of
              Inl e \<Rightarrow> ([], Some e)
            | Inr feats \<Rightarrow>
                (uint8Sample feats (Action inp) (Advantage inp) # fst (uint8_loop impl n ins []),
                 snd (uint8_loop impl n ins []))))"
proof (cases "fill_features impl inp n 0 (replicate (nat n) 0)")
  case (Inl e)
  then show ?thesis by simp
next
  case (Inr feats)
  then show ?thesis
    using uint8_loop_acc [of impl n ins "[uint8Sample feats (Action inp) (Advantage inp)]"]
    by simp
qed

lemma uint8_loop_nth:
  "k < length (fst (uint8_loop impl n ins [])) \<Longrightarrow>
     k < length ins \<and> 0 \<le> n
     \<and> (\<exists>feats. fill_features impl (ins ! k) n 0 (replicate (nat n) 0) = Inr feats
          \<and> fst (uint8_loop impl n ins []) ! k
              = uint8Sample feats (Action (ins ! k)) (Advantage (ins ! k)))"
proof (induction ins arbitrary: k)
  case Nil
  then show ?case by simp
next
  case (Cons inp ins)
  from Cons.prems have n: "0 \<le> n"
    unfolding uint8_loop_Cons by (auto split: if_splits)
  from Cons.prems n obtain feats where
    feats: "fill_features impl inp n 0 (replicate (nat n) 0) = Inr feats"
    unfolding uint8_loop_Cons by (auto split: sum.splits)
  show ?case
  proof (cases k)
    case 0
    with n feats show ?thesis unfolding uint8_loop_Cons by simp
  next
    case (Suc k')
    with Cons.prems n feats have "k' < length (fst (uint8_loop impl n ins []))"
      unfolding uint8_loop_Cons by simp
    from Cons.IH [OF this] n feats show ?thesis
      unfolding uint8_loop_Cons Suc by simp
  qed
qed

lemma uint8_loop_length:
  "length (fst (uint8_loop impl n ins [])) \<le> length ins
   \<and> (snd (uint8_loop impl n ins []) = None \<longrightarrow> length (fst (uint8_loop impl n ins [])) = length ins)"
proof (induction ins)
  case Nil
  show ?case by simp
next
  case (Cons inp ins)
  then show ?case
    unfolding uint8_loop_Cons by (auto split: sum.splits)
qed

lemma uint8_loop_ok:
  assumes "0 \<le> n"
    and "\<forall>s \<in> set ins. \<forall>j. 0 \<le> j \<and> j < n \<longrightarrow> (\<exists>x. Feature s j = Inr x)"
  shows "snd (uint8_loop impl n ins []) = None"
  using assms(2)
proof (induction ins)
  case Nil
  show ?case by simp
next
  case (Cons inp ins)
  have "\<exists>feats. fill_features impl inp n 0 (replicate (nat n) 0) = Inr feats"
  proof (cases "fill_features impl inp n 0 (replicate (nat n) 0)")
    case (Inl e)
    with fill_features_result [where i = 0 and impl = impl and inp = inp and n = n
           and feats = "replicate (nat n) 0"]
    obtain j where "0 \<le> j" "j < n" "Feature inp j = Inl e" by auto
    with Cons.prems show ?thesis by fastforce
  next
    case (Inr feats)
    then show ?thesis by simp
  qed
  then obtain feats where "fill_features impl inp n 0 (replicate (nat n) 0) = Inr feats" ..
  with Cons assms(1) show ?case
    unfolding uint8_loop_Cons by simp
qed

lemma Uint8Samples_nth:
  assumes "k < length (fst (Uint8Samples impl n ins))"
  shows "k < length ins \<and> 0 \<le> n
     \<and> (\<exists>feats. fst (Uint8Samples impl n ins) ! k
                   = uint8Sample feats (Action (ins ! k)) (Advantage (ins ! k))
          \<and> length feats = nat n
          \<and> (\<forall>j. 0 \<le> j \<and> j < n \<longrightarrow>
                (\<exists>x. Feature (ins ! k) j = Inr x \<and> feats ! nat j = uint8_of_float impl x)))"
proof -
  from uint8_loop_nth [OF assms [unfolded Uint8Samples_def]] obtain feats where
    k: "k < length ins" and n: "0 \<le> n"
    and fill: "fill_features impl (ins ! k) n 0 (replicate (nat n) 0) = Inr feats"
    and out: "fst (Uint8Samples impl n ins) ! k
                = uint8Sample feats (Action (ins ! k)) (Advantage (ins ! k))"
    unfolding Uint8Samples_def by auto
  from fill_features_result [where i = 0 and impl = impl and inp = "ins ! k" and n = n
           and feats = "replicate (nat n) 0"] fill
  have len: "length feats = nat n"
    and each: "\<And>j. 0 \<le> j \<Longrightarrow> j < n \<Longrightarrow>
        \<exists>x. Feature (ins ! k) j = Inr x \<and> (nat j < nat n \<longrightarrow> feats ! nat j = uint8_of_float impl x)"
    by auto
  have "\<exists>x. Feature (ins ! k) j = Inr x \<and> feats ! nat j = uint8_of_float impl x"
    if "0 \<le> j" "j < n" for j
  proof -
    from that have "nat j < nat n" by simp
    with each [OF that] show ?thesis by auto
  qed
  with k n out len show ?thesis by auto
qed

text \<open>
  Claim C6. Every sample that Uint8Samples sends has the action and the advantage of the
  input sample at the same position; the output is never longer than the input and, when
  the goroutine returns, as long as the input.
\<close>

theorem Uint8Samples_copies:
  "length (fst (Uint8Samples impl n ins)) \<le> length ins
   \<and> (snd (Uint8Samples impl n ins) = None \<longrightarrow>
        length (fst (Uint8Samples impl n ins)) = length ins)
   \<and> (\<forall>k < length (fst (Uint8Samples impl n ins)).
         Action (fst (Uint8Samples impl n ins) ! k) = Action (ins ! k)
         \<and> Advantage (fst (Uint8Samples impl n ins) ! k) = Advantage (ins ! k))"
proof -
  have "Action (fst (Uint8Samples impl n ins) ! k) = Action (ins ! k)
     \<and> Advantage (fst (Uint8Samples impl n ins) ! k) = Advantage (ins ! k)"
    if "k < length (fst (Uint8Samples impl n ins))" for k
    using Uint8Samples_nth [OF that] by auto
  then show ?thesis
    using uint8_loop_length [of impl n ins] by (simp add: Uint8Samples_def)
qed

theorem Uint8Samples_copies_witness:
  "Uint8Samples (\<lambda>x. 0) 3 ex_samples = (ex_uint8_samples, None)
   \<and> length (fst (Uint8Samples (\<lambda>x. 0) 3 ex_samples)) = length ex_samples
   \<and> Action (fst (Uint8Samples (\<lambda>x. 0) 3 ex_samples) ! 0) = Action (ex_samples ! 0)
   \<and> Advantage (fst (Uint8Samples (\<lambda>x. 0) 3 ex_samples) ! 0) = Advantage (ex_samples ! 0)
   \<and> Action (ex_samples ! 0) = 1 \<and> Advantage (ex_samples ! 0) = 1"
proof -
  have run: "Uint8Samples (\<lambda>x. 0) 3 ex_samples = (ex_uint8_samples, None)"
    by code_simp
  have len: "length ex_uint8_samples = 3"
    by (simp add: ex_uint8_samples_def)
  note th = Uint8Samples_copies [of "\<lambda>x. 0" 3 ex_samples, unfolded run fst_conv snd_conv len]
  from th have "\<forall>k < 3. Action (ex_uint8_samples ! k) = Action (ex_samples ! k)
         \<and> Advantage (ex_uint8_samples ! k) = Advantage (ex_samples ! k)"
    by blast
  from this [rule_format, of 0]
  have same: "Action (ex_uint8_samples ! 0) = Action (ex_samples ! 0)
         \<and> Advantage (ex_uint8_samples ! 0) = Advantage (ex_samples ! 0)"
    by simp
  have vals: "Action (ex_samples ! 0) = 1 \<and> Advantage (ex_samples ! 0) = 1"
    by (simp add: ex_samples_def)
  have len': "length ex_samples = 3"
    by (simp add: ex_samples_def)
  show ?thesis
    unfolding run fst_conv using same vals len len' by simp
qed

text \<open>
  Claim C5. Let the feature count be non-negative and let every input sample have, at
  every index below the feature count, a feature that is an integer between 0 and 255.
  Then Uint8Samples returns without a panic, sends as many samples as it received, and
  the sample at each position has, at every index below the feature count, exactly the
  feature of the input sample at that position.
\<close>

theorem Uint8Samples_in_range:
  assumes "0 \<le> numFeatures"
    and "\<forall>s \<in> set incoming. \<forall>idx. 0 \<le> idx \<and> idx < numFeatures \<longrightarrow>
           (\<exists>m. 0 \<le> m \<and> m \<le> 255 \<and> Feature s idx = Inr (of_int m))"
  shows "snd (Uint8Samples impl numFeatures incoming) = None
     \<and> length (fst (Uint8Samples impl numFeatures incoming)) = length incoming
     \<and> (\<forall>k < length incoming. \<forall>idx. 0 \<le> idx \<and> idx < numFeatures \<longrightarrow>
           Feature (fst (Uint8Samples impl numFeatures incoming) ! k) idx
             = Feature (incoming ! k) idx)"
proof -
  have defined: "\<forall>s \<in> set incoming. \<forall>j. 0 \<le> j \<and> j < numFeatures \<longrightarrow> (\<exists>x. Feature s j = Inr x)"
    using assms(2) by blast
  have ok: "snd (Uint8Samples impl numFeatures incoming) = None"
    using uint8_loop_ok [OF assms(1) defined] by (simp add: Uint8Samples_def)
  then have len: "length (fst (Uint8Samples impl numFeatures incoming)) = length incoming"
    using uint8_loop_length [of impl numFeatures incoming] by (simp add: Uint8Samples_def)
  have "Feature (fst (Uint8Samples impl numFeatures incoming) ! k) idx = Feature (incoming ! k) idx"
    if k: "k < length incoming" and idx: "0 \<le> idx" "idx < numFeatures" for k idx
  proof -
    from k len have "k < length (fst (Uint8Samples impl numFeatures incoming))" by simp
    from Uint8Samples_nth [OF this] obtain feats where
      out: "fst (Uint8Samples impl numFeatures incoming) ! k
              = uint8Sample feats (Action (incoming ! k)) (Advantage (incoming ! k))"
      and flen: "length feats = nat numFeatures"
      and each: "\<And>j. 0 \<le> j \<Longrightarrow> j < numFeatures \<Longrightarrow>
            \<exists>x. Feature (incoming ! k) j = Inr x \<and> feats ! nat j = uint8_of_float impl x"
      by auto
    from k have "incoming ! k \<in> set incoming" by simp
    with assms(2) idx obtain m where
      m: "0 \<le> m" "m \<le> 255" "Feature (incoming ! k) idx = Inr (of_int m)"
      by blast
    from each [OF idx] m(3) have stored: "feats ! nat idx = uint8_of_float impl (of_int m)"
      by simp
    have "Feature (uint8Sample feats (Action (incoming ! k)) (Advantage (incoming ! k))) idx
            = Inr (real (unat (feats ! nat idx)))"
      using idx flen by (simp add: index_def)
    also have "\<dots> = Inr (of_int m)"
      unfolding stored using uint8_roundtrip [OF m(1,2)] by simp
    finally show ?thesis using out m(3) by simp
  qed
  with ok len show ?thesis by simp
qed

theorem Uint8Samples_in_range_witness:
  "Uint8Samples (\<lambda>x. 0) 3 ex_samples = (ex_uint8_samples, None)
   \<and> Feature (ex_samples ! 1) 2 = Inr 22
   \<and> Feature (fst (Uint8Samples (\<lambda>x. 0) 3 ex_samples) ! 1) 2 = Inr 22"
proof -
  have run: "Uint8Samples (\<lambda>x. 0) 3 ex_samples = (ex_uint8_samples, None)"
    by code_simp
  have three: "idx = 0 \<or> idx = 1 \<or> idx = 2" if "0 \<le> idx" "idx < 3" for idx :: int
    using that by arith
  have in_range: "\<forall>s \<in> set ex_samples. \<forall>idx. 0 \<le> idx \<and> idx < 3 \<longrightarrow>
           (\<exists>m. 0 \<le> m \<and> m \<le> 255 \<and> Feature s idx = Inr (of_int m))"
  proof (intro ballI allI impI)
    fix s idx
    assume s: "s \<in> set ex_samples" and idx: "0 \<le> idx \<and> idx < (3::int)"
    from idx three [of idx] have cases: "idx = 0 \<or> idx = 1 \<or> idx = 2" by simp
    have v: "\<exists>m. 0 \<le> m \<and> m \<le> 255 \<and> (numeral n :: real) = of_int m" if "numeral n \<le> (255::int)" for n
      using that by (intro exI [of _ "numeral n"]) simp
    from s cases show "\<exists>m. 0 \<le> m \<and> m \<le> 255 \<and> Feature s idx = Inr (of_int m)"
      by (auto simp: ex_samples_def index_def intro!: v)
  qed
  have orig: "Feature (ex_samples ! 1) 2 = Inr 22"
    by (simp add: ex_samples_def index_def)
  have len: "length ex_samples = 3"
    by (simp add: ex_samples_def)
  from Uint8Samples_in_range [where impl = "\<lambda>x. 0", OF _ in_range]
  have "\<forall>k < length ex_samples. \<forall>idx. 0 \<le> idx \<and> idx < 3 \<longrightarrow>
           Feature (fst (Uint8Samples (\<lambda>x. 0) 3 ex_samples) ! k) idx = Feature (ex_samples ! k) idx"
    by simp
  from this [rule_format, of 1 2] len
  have "Feature (fst (Uint8Samples (\<lambda>x. 0) 3 ex_samples) ! 1) 2 = Feature (ex_samples ! 1) 2"
    by simp
  with run orig show ?thesis by simp
qed

lemma trunc_towards_zero:
  "(0 \<le> x \<longrightarrow> 0 \<le> trunc x \<and> of_int (trunc x) \<le> x \<and> x < of_int (trunc x) + 1)
   \<and> (x \<le> 0 \<longrightarrow> trunc x \<le> 0 \<and> x \<le> of_int (trunc x) \<and> of_int (trunc x) < x + 1)"
  unfolding trunc_def by (auto; linarith)

lemma trunc_in_range: "0 \<le> trunc x \<and> trunc x \<le> 255 \<longleftrightarrow> - 1 < x \<and> x < 256"
  unfolding trunc_def by (auto; linarith)

lemma unat_uint8_of_int:
  assumes "0 \<le> m" and "m \<le> 255"
  shows "unat (word_of_int m :: uint8) = nat m"
proof -
  have "take_bit 8 m = m"
    using assms by (simp add: take_bit_int_eq_self)
  then show ?thesis
    by (simp add: unsigned_of_int)
qed

text \<open>
  Claim C7, as amended. For every sample that Uint8Samples sends and every index below the
  feature count, the input sample has a feature x at the index and the byte stored at the
  index is uint8(x). When x lies strictly between -1 and 256, the byte is x with its
  fraction discarded (truncated towards zero): a whole number between 0 and 255, not above
  x for positive x and not below x for negative x, and less than 1 away from x. For any other x
  the byte is what the Go implementation's conversion yields; the code neither clamps
  nor reduces modulo 256.
\<close>

theorem Uint8Samples_stores:
  assumes "k < length (fst (Uint8Samples impl n ins))" and "0 \<le> idx" and "idx < n"
  shows "\<exists>x. Feature (ins ! k) idx = Inr x
     \<and> nat idx < length (u_features (fst (Uint8Samples impl n ins) ! k))
     \<and> u_features (fst (Uint8Samples impl n ins) ! k) ! nat idx = uint8_of_float impl x
     \<and> (- 1 < x \<and> x < 256 \<longrightarrow>
          uint8_of_float impl x = word_of_int (trunc x)
          \<and> unat (uint8_of_float impl x) = nat (trunc x)
          \<and> 0 \<le> trunc x \<and> trunc x \<le> 255)
     \<and> (\<not> (- 1 < x \<and> x < 256) \<longrightarrow> uint8_of_float impl x = impl x)
     \<and> (0 \<le> x \<longrightarrow> of_int (trunc x) \<le> x \<and> x < of_int (trunc x) + 1)
     \<and> (x \<le> 0 \<longrightarrow> x \<le> of_int (trunc x) \<and> of_int (trunc x) < x + 1)"
proof -
  from Uint8Samples_nth [OF assms(1)] obtain feats where
    out: "fst (Uint8Samples impl n ins) ! k
            = uint8Sample feats (Action (ins ! k)) (Advantage (ins ! k))"
    and len: "length feats = nat n"
    and each: "\<And>j. 0 \<le> j \<Longrightarrow> j < n \<Longrightarrow>
          \<exists>x. Feature (ins ! k) j = Inr x \<and> feats ! nat j = uint8_of_float impl x"
    by auto
  from each [OF assms(2,3)] obtain x where
    x: "Feature (ins ! k) idx = Inr x" "feats ! nat idx = uint8_of_float impl x"
    by auto
  have bound: "nat idx < length (u_features (fst (Uint8Samples impl n ins) ! k))"
    using assms(2,3) len out by simp
  have stored: "u_features (fst (Uint8Samples impl n ins) ! k) ! nat idx = uint8_of_float impl x"
    using out x(2) by simp
  have inside: "uint8_of_float impl x = word_of_int (trunc x)
          \<and> unat (uint8_of_float impl x) = nat (trunc x)
          \<and> 0 \<le> trunc x \<and> trunc x \<le> 255"
    if "- 1 < x \<and> x < 256"
  proof -
    from that have r: "0 \<le> trunc x" "trunc x \<le> 255"
      using trunc_in_range [of x] by simp_all
    then have "uint8_of_float impl x = word_of_int (trunc x)"
      by (simp add: uint8_of_float_def)
    with r unat_uint8_of_int [OF r] show ?thesis by simp
  qed
  have outside: "uint8_of_float impl x = impl x" if "\<not> (- 1 < x \<and> x < 256)"
  proof -
    from that trunc_in_range [of x] have "\<not> (0 \<le> trunc x \<and> trunc x \<le> 255)" by blast
    then show ?thesis by (simp only: uint8_of_float_def if_False)
  qed
  from x(1) bound stored inside outside trunc_towards_zero [of x] show ?thesis
    by (intro exI [of _ x]) blast
qed

theorem Uint8Samples_stores_witness:
  "Uint8Samples cvt_saturating 3 ex_fractions = ([uint8Sample [3, 0, 255] 2 0], None)
   \<and> Feature (ex_fractions ! 0) 2 = Inr (2559 / 10)
   \<and> u_features (fst (Uint8Samples cvt_saturating 3 ex_fractions) ! 0) ! 2
       = uint8_of_float cvt_saturating (2559 / 10)
   \<and> unat (uint8_of_float cvt_saturating (2559 / 10)) = nat (trunc (2559 / 10))
   \<and> uint8_of_float cvt_saturating (2559 / 10) = 255
   \<and> trunc (2559 / 10) = 255
   \<and> trunc (- 1 / 2) = 0"
proof -
  have run: "Uint8Samples cvt_saturating 3 ex_fractions = ([uint8Sample [3, 0, 255] 2 0], None)"
    by code_simp
  have k: "0 < length (fst (Uint8Samples cvt_saturating 3 ex_fractions))"
    unfolding run by simp
  have feat: "Feature (ex_fractions ! 0) 2 = Inr (2559 / 10)"
    by (simp add: ex_fractions_def index_def)
  from Uint8Samples_stores [OF k, of 2] obtain x where
    x: "Feature (ex_fractions ! 0) 2 = Inr x"
       "u_features (fst (Uint8Samples cvt_saturating 3 ex_fractions) ! 0) ! nat 2
          = uint8_of_float cvt_saturating x"
       "- 1 < x \<and> x < 256 \<longrightarrow> unat (uint8_of_float cvt_saturating x) = nat (trunc x)"
    by auto
  from x(1) feat have eq: "x = 2559 / 10" by simp
  with x(2) have stored: "u_features (fst (Uint8Samples cvt_saturating 3 ex_fractions) ! 0) ! 2
       = uint8_of_float cvt_saturating (2559 / 10)"
    by simp
  from x(3) have in_range: "unat (uint8_of_float cvt_saturating (2559 / 10)) = nat (trunc (2559 / 10))"
    unfolding eq by simp
  have t1: "trunc (2559 / 10) = 255"
    by (simp add: trunc_def)
  have t2: "trunc (- 1 / 2) = 0"
    by code_simp
  have byte: "uint8_of_float cvt_saturating (2559 / 10) = 255"
    by (simp add: uint8_of_float_def t1)
  from run feat stored in_range byte t1 t2 show ?thesis by simp
qed

text \<open>
  As written, with out-of-range values wrapping around modulo 256, claim C7 fails: the
  feature 2147483649 is 1 modulo 256, and the byte stored for it is 0 with the first
  conversion and 255 with the second.
\<close>

theorem Uint8Samples_wrap_counterexample:
  "Feature (ex_beyond ! 0) 0 = Inr 2147483649
   \<and> trunc 2147483649 = 2147483649
   \<and> (word_of_int (trunc 2147483649) :: uint8) = 1
   \<and> Uint8Samples cvt_indefinite 1 ex_beyond = ([uint8Sample [0] 0 0], None)
   \<and> Uint8Samples cvt_saturating 1 ex_beyond = ([uint8Sample [255] 0 0], None)
   \<and> u_features (fst (Uint8Samples cvt_indefinite 1 ex_beyond) ! 0) ! 0
       \<noteq> word_of_int (trunc 2147483649)
   \<and> u_features (fst (Uint8Samples cvt_saturating 1 ex_beyond) ! 0) ! 0
       \<noteq> word_of_int (trunc 2147483649)"
proof -
  have feat: "Feature (ex_beyond ! 0) 0 = Inr 2147483649"
    by (simp add: ex_beyond_def index_def)
  have t: "trunc 2147483649 = 2147483649"
    by (simp add: trunc_def)
  have wrap: "(word_of_int 2147483649 :: uint8) = 1"
    by simp
  have run1: "Uint8Samples cvt_indefinite 1 ex_beyond = ([uint8Sample [0] 0 0], None)"
    by code_simp
  have run2: "Uint8Samples cvt_saturating 1 ex_beyond = ([uint8Sample [255] 0 0], None)"
    by code_simp
  show ?thesis
    unfolding run1 run2 t using feat wrap by simp
qed

section \<open>AllSamples\<close>

lemma all_loop_append: "all_loop ch res = res @ ch"
  by (induction ch arbitrary: res) simp_all

text \<open>
  Claim C9. For every finite sample sequence, AllSamples returns the samples of the
  sequence in their order: the result has the length of the sequence and its i-th element
  is the i-th sample; for the empty sequence the result is empty.
\<close>

theorem AllSamples_preserves:
  "length (AllSamples ch) = length ch
   \<and> (\<forall>i < length ch. AllSamples ch ! i = ch ! i)
   \<and> AllSamples [] = []"
  by (simp add: AllSamples_def all_loop_append)

theorem AllSamples_preserves_witness:
  "length (AllSamples ex_samples) = 3
   \<and> AllSamples ex_samples ! 2 = memorySample [13, 14, 15] 0 (1 / 2)
   \<and> AllSamples [] = []"
  using AllSamples_preserves [of ex_samples] by (simp add: ex_samples_def)

end
